theory Spec2Isabelle
  imports Main "HOL-Library.Word" "HOL-Library.Signed_Division"
begin

section \<open>The Eghact native microservice orchestrator\<close>

text \<open>
  A shallow embedding of \<^verbatim>\<open>src/microservices/native-orchestrator.c\<close>: the service
  registry, the load balancer, the health-check worker, the message queue with its
  dispatcher, and the circuit breaker.

  Conventions of the embedding.
  \<^item> A C \<^verbatim>\<open>int\<close> is a 32-bit word, read as two's complement by \<open>sint\<close>; \<^verbatim>\<open>++\<close> wraps
    around (signed overflow is undefined behaviour in C; the wrap is what the compiled
    code does on the usual targets).
  \<^item> A \<^verbatim>\<open>char*\<close> is a \<open>string\<close>, and \<^verbatim>\<open>strcmp(a, b) == 0\<close> is equality.
  \<^item> \<^verbatim>\<open>malloc\<close>, \<^verbatim>\<open>realloc\<close> and \<^verbatim>\<open>strdup\<close> are taken to succeed (the code never checks
    them).
  \<^item> The two workers are endless loops; one iteration of each is a function.
  \<^item> Every function is modelled as it runs alone: what it does between taking and
    releasing a lock is one step. The lock operations of the health checker are kept as
    events, next to its probes.
\<close>

type_synonym c_int = "32 word"

subsection \<open>Circuit breaker\<close>

datatype cb_state = CLOSED | OPEN | HALF_OPEN

text \<open>
  \<^verbatim>\<open>time_t\<close> is an \<open>int\<close>: the values of \<^verbatim>\<open>time(NULL)\<close> are far from the limits of the
  64-bit type, so the difference of two of them does not overflow.
\<close>

record CircuitBreaker =
  failure_count :: c_int
  failure_threshold :: c_int
  timeout_duration :: c_int
  last_failure_time :: int
  state :: cb_state

text \<open>
  What lies outside the breaker: a clock, read by \<^verbatim>\<open>time(NULL)\<close>, and whatever else the
  wrapped function touches (the extension part of the record). The wrapped function
  \<^verbatim>\<open>func(arg)\<close> is a function from this world to its return value and the new world.
\<close>

record world =
  wall_clock :: int

type_synonym 'w wrapped = "'w world_scheme \<Rightarrow> c_int \<times> 'w world_scheme"

definition create_circuit_breaker :: "c_int \<Rightarrow> c_int \<Rightarrow> CircuitBreaker" where
  "create_circuit_breaker threshold timeout =
     \<lparr>failure_count = 0, failure_threshold = threshold, timeout_duration = timeout,
      last_failure_time = 0, state = CLOSED\<rparr>"

text \<open>The first \<^verbatim>\<open>if\<close> of \<^verbatim>\<open>circuit_breaker_call\<close>: \<open>None\<close> is the early \<^verbatim>\<open>return -1\<close>.\<close>

definition cb_admit :: "CircuitBreaker \<Rightarrow> 'w world_scheme \<Rightarrow> CircuitBreaker option" where
  "cb_admit cb w =
     (if state cb = OPEN then
        (if wall_clock w - last_failure_time cb > sint (timeout_duration cb)
         then Some (cb\<lparr>state := HALF_OPEN\<rparr>)
         else None)
      else Some cb)"

text \<open>The rest of the function, once \<^verbatim>\<open>func\<close> has returned \<open>result\<close> in world \<open>w'\<close>.\<close>

definition cb_record :: "CircuitBreaker \<Rightarrow> c_int \<Rightarrow> 'w world_scheme \<Rightarrow> CircuitBreaker" where
  "cb_record cb result w' =
     (if result = 0 then
        (if state cb = HALF_OPEN then cb\<lparr>state := CLOSED, failure_count := 0\<rparr> else cb)
      else
        (let cb1 = cb\<lparr>failure_count := failure_count cb + 1,
                      last_failure_time := wall_clock w'\<rparr>
         in if sint (failure_count cb1) \<ge> sint (failure_threshold cb1)
            then cb1\<lparr>state := OPEN\<rparr> else cb1))"

definition circuit_breaker_call ::
  "CircuitBreaker \<Rightarrow> 'w wrapped \<Rightarrow> 'w world_scheme \<Rightarrow> c_int \<times> CircuitBreaker \<times> 'w world_scheme"
where
  "circuit_breaker_call cb func w =
     (case cb_admit cb w of
        None \<Rightarrow> (- 1, cb, w)
      | Some cb1 \<Rightarrow>
          (let (result, w') = func w
           in (result, cb_record cb1 result w', w')))"

text \<open>Three calls in a row, each with its own wrapped function; the breaker after them.\<close>

definition three_calls ::
  "CircuitBreaker \<Rightarrow> 'w wrapped \<Rightarrow> 'w wrapped \<Rightarrow> 'w wrapped \<Rightarrow> 'w world_scheme
   \<Rightarrow> CircuitBreaker \<times> 'w world_scheme"
where
  "three_calls cb f1 f2 f3 w =
     (let (r1, cb1, w1) = circuit_breaker_call cb f1 w;
          (r2, cb2, w2) = circuit_breaker_call cb1 f2 w1;
          (r3, cb3, w3) = circuit_breaker_call cb2 f3 w2
      in (cb3, w3))"

text \<open>A wrapped function that fails whenever it is invoked.\<close>

definition failing :: "'w wrapped \<Rightarrow> bool" where
  "failing f = (\<forall>w. fst (f w) \<noteq> 0)"

text \<open>Two wrapped functions for concrete runs; each takes one second.\<close>

definition always_fails :: "unit wrapped" where
  "always_fails w = (1, w\<lparr>wall_clock := wall_clock w + 1\<rparr>)"

definition always_succeeds :: "unit wrapped" where
  "always_succeeds w = (0, w\<lparr>wall_clock := wall_clock w + 1\<rparr>)"

subsection \<open>Service registry\<close>

record ServiceNode =
  service_id :: string
  service_name :: string
  host :: string
  port :: c_int
  health_status :: c_int
  load :: c_int

text \<open>
  The linked list of the registry (\<^verbatim>\<open>services\<close>, then the \<^verbatim>\<open>next\<close> pointers) is the
  list \<open>services\<close>, first node first. A \<^verbatim>\<open>ServiceNode*\<close> into the list is the position
  of the node in it.
\<close>

record ServiceRegistry =
  services :: "ServiceNode list"
  num_services :: c_int

datatype LoadBalancingStrategy = LB_ROUND_ROBIN | LB_LEAST_CONNECTIONS | LB_WEIGHTED | LB_IP_HASH

text \<open>
  The \<^verbatim>\<open>registry\<close> pointer of the load balancer is the registry of the orchestrator
  (\<^verbatim>\<open>eghact_orchestrator_init\<close>), so the functions of the balancer take that registry
  and return it updated.
\<close>

record LoadBalancer =
  strategy :: LoadBalancingStrategy
  current_index :: c_int

text \<open>
  Messages live in a heap: \<open>cell\<close> is the memory, \<open>allocated\<close> the addresses that
  \<^verbatim>\<open>malloc\<close> has handed out and \<^verbatim>\<open>free\<close> has not taken back. A \<^verbatim>\<open>Message*\<close> is
  \<open>None\<close> for \<^verbatim>\<open>NULL\<close> or \<open>Some\<close> address.
\<close>

record Message =
  from_service :: string
  to_service :: string
  payload :: string
  priority :: c_int
  "next" :: "nat option"

record msg_heap =
  cell :: "nat \<Rightarrow> Message"
  allocated :: "nat set"

record MessageQueue =
  head :: "nat option"
  tail :: "nat option"

record EghactOrchestrator =
  registry :: ServiceRegistry
  message_queue :: MessageQueue
  load_balancer :: LoadBalancer

definition eghact_orchestrator_init :: EghactOrchestrator where
  "eghact_orchestrator_init =
     \<lparr>registry = \<lparr>services = [], num_services = 0\<rparr>,
      message_queue = \<lparr>head = None, tail = None\<rparr>,
      load_balancer = \<lparr>strategy = LB_ROUND_ROBIN, current_index = 0\<rparr>\<rparr>"

text \<open>
  Modelled from the spec: \<^verbatim>\<open>generate_service_id\<close> is declared in \<^verbatim>\<open>eghact-core.h\<close>,
  which is not among the sources. The spec asks for "a fresh unique id": the generator
  keeps a counter, and the id of the \<open>n\<close>-th call is \<^verbatim>\<open>svc-\<close> followed by \<open>n\<close> strokes, a
  string no other call returns.
\<close>

definition generate_service_id :: "nat \<Rightarrow> string \<times> nat" where
  "generate_service_id n = (''svc-'' @ replicate n (CHR ''|''), Suc n)"

text \<open>The last argument and the last result are the state of the id generator.\<close>

definition eghact_register_service ::
  "EghactOrchestrator \<Rightarrow> string \<Rightarrow> string \<Rightarrow> c_int \<Rightarrow> nat \<Rightarrow> c_int \<times> EghactOrchestrator \<times> nat"
where
  "eghact_register_service orch name hst prt g =
     (let (sid, g') = generate_service_id g;
          node = \<lparr>service_id = sid, service_name = name, host = hst, port = prt,
                  health_status = 1, load = 0\<rparr>;
          reg = registry orch
      in (0, orch\<lparr>registry := \<lparr>services = node # services reg,
                                  num_services = num_services reg + 1\<rparr>\<rparr>, g'))"

subsection \<open>Load balancer\<close>

text \<open>
  The \<^verbatim>\<open>while\<close> loop of \<^verbatim>\<open>select_service_instance\<close>: the array \<^verbatim>\<open>instances\<close> of the
  healthy nodes of the service, in list order; \<open>i\<close> is the position of the first node of
  the remaining list.
\<close>

fun collect_instances :: "nat \<Rightarrow> ServiceNode list \<Rightarrow> string \<Rightarrow> nat list" where
  "collect_instances i [] name = []"
| "collect_instances i (current # rest) name =
     (if service_name current = name \<and> health_status current = 1
      then i # collect_instances (Suc i) rest name
      else collect_instances (Suc i) rest name)"

text \<open>The \<^verbatim>\<open>for\<close> loop of the least-connections case, over \<^verbatim>\<open>instances[1..]\<close>.\<close>

fun least_connections :: "ServiceNode list \<Rightarrow> nat \<Rightarrow> nat list \<Rightarrow> nat" where
  "least_connections svcs selected [] = selected"
| "least_connections svcs selected (i # rest) =
     least_connections svcs
       (if sint (load (svcs ! i)) < sint (load (svcs ! selected)) then i else selected) rest"

text \<open>\<^verbatim>\<open>selected->load++\<close>\<close>

definition increment_load :: "ServiceRegistry \<Rightarrow> nat \<Rightarrow> ServiceRegistry" where
  "increment_load reg i =
     reg\<lparr>services := (services reg)[i := (services reg ! i)\<lparr>load := load (services reg ! i) + 1\<rparr>]\<rparr>"

text \<open>
  What goes wrong in the model: C's \<^verbatim>\<open>%\<close> truncates (\<open>smod\<close>), so a negative
  \<^verbatim>\<open>current_index\<close> gives a negative index, and \<^verbatim>\<open>instances[...]\<close> reads before the
  array. \<^verbatim>\<open>num_instances\<close> is the length of the array; it stays below \<^verbatim>\<open>INT_MAX\<close>, since
  every node it counts takes memory.
\<close>

datatype fault = OutOfBoundsRead

definition select_service_instance ::
  "LoadBalancer \<Rightarrow> ServiceRegistry \<Rightarrow> string
   \<Rightarrow> fault + (nat option \<times> LoadBalancer \<times> ServiceRegistry)"
where
  "select_service_instance lb reg name =
     (let instances = collect_instances 0 (services reg) name;
          num_instances = length instances
      in if num_instances > 0 then
           (case strategy lb of
              LB_ROUND_ROBIN \<Rightarrow>
                (let i = sint (current_index lb) smod int num_instances
                 in if i < 0 then Inl OutOfBoundsRead
                    else Inr (Some (instances ! nat i),
                              lb\<lparr>current_index := current_index lb + 1\<rparr>,
                              increment_load reg (instances ! nat i)))
            | LB_LEAST_CONNECTIONS \<Rightarrow>
                (let selected = least_connections (services reg) (hd instances) (tl instances)
                 in Inr (Some selected, lb, increment_load reg selected))
            | LB_WEIGHTED \<Rightarrow> Inr (None, lb, reg)
            | LB_IP_HASH \<Rightarrow> Inr (None, lb, reg))
         else Inr (None, lb, reg))"

definition eghact_discover_service ::
  "EghactOrchestrator \<Rightarrow> string \<Rightarrow> fault + (nat option \<times> EghactOrchestrator)"
where
  "eghact_discover_service orch name =
     (case select_service_instance (load_balancer orch) (registry orch) name of
        Inl e \<Rightarrow> Inl e
      | Inr (selected, lb, reg) \<Rightarrow> Inr (selected, orch\<lparr>registry := reg, load_balancer := lb\<rparr>))"

subsection \<open>Health-check worker\<close>

text \<open>
  What the network answers to one probe (\<^verbatim>\<open>connect\<close>, \<^verbatim>\<open>send\<close>, \<^verbatim>\<open>recv\<close>): the connection
  fails, or nothing is received, or \<^verbatim>\<open>response\<close> holds a string for \<^verbatim>\<open>strcmp\<close>.
\<close>

datatype probe_outcome = ConnectFailed | RecvFailed | Response string

fun probe_status :: "probe_outcome \<Rightarrow> c_int" where
  "probe_status ConnectFailed = 0"
| "probe_status RecvFailed = 0"
| "probe_status (Response r) = (if r = ''OK'' then 1 else 0)"

text \<open>
  What the worker does that other threads can see, in program order: it takes and
  releases the registry lock, probes a host and port over the network, and sleeps.
\<close>

datatype event = Registry_lock | Registry_unlock | Probe string c_int | Sleep nat

text \<open>
  The inner \<^verbatim>\<open>while (current)\<close> loop. The network is a function from the position of
  the probed node to the outcome of its probe.
\<close>

fun health_check_nodes ::
  "(nat \<Rightarrow> probe_outcome) \<Rightarrow> nat \<Rightarrow> ServiceNode list \<Rightarrow> event list \<times> ServiceNode list"
where
  "health_check_nodes net i [] = ([], [])"
| "health_check_nodes net i (current # rest) =
     (let (evs, rest') = health_check_nodes net (Suc i) rest
      in (Probe (host current) (port current) # evs,
          current\<lparr>health_status := probe_status (net i)\<rparr> # rest'))"

text \<open>One iteration of the \<^verbatim>\<open>while (1)\<close> loop of \<^verbatim>\<open>health_check_worker\<close>.\<close>

definition health_check_iteration ::
  "(nat \<Rightarrow> probe_outcome) \<Rightarrow> EghactOrchestrator \<Rightarrow> event list \<times> EghactOrchestrator"
where
  "health_check_iteration net orch =
     (let (evs, svcs) = health_check_nodes net 0 (services (registry orch))
      in ([Registry_lock] @ evs @ [Registry_unlock, Sleep 5],
          orch\<lparr>registry := (registry orch)\<lparr>services := svcs\<rparr>\<rparr>))"

text \<open>
  Reading a trace with the lock state at its start: no probe happens while the lock is
  held (\<open>probes_lock_free\<close>); every probe happens while it is held (\<open>probes_locked\<close>).
\<close>

fun probes_lock_free :: "bool \<Rightarrow> event list \<Rightarrow> bool" where
  "probes_lock_free held [] = True"
| "probes_lock_free held (Registry_lock # es) = probes_lock_free True es"
| "probes_lock_free held (Registry_unlock # es) = probes_lock_free False es"
| "probes_lock_free held (Probe h p # es) = (\<not> held \<and> probes_lock_free held es)"
| "probes_lock_free held (Sleep n # es) = probes_lock_free held es"

fun probes_locked :: "bool \<Rightarrow> event list \<Rightarrow> bool" where
  "probes_locked held [] = True"
| "probes_locked held (Registry_lock # es) = probes_locked True es"
| "probes_locked held (Registry_unlock # es) = probes_locked False es"
| "probes_locked held (Probe h p # es) = (held \<and> probes_locked held es)"
| "probes_locked held (Sleep n # es) = probes_locked held es"

subsection \<open>Message queue and dispatcher\<close>

text \<open>
  \<^verbatim>\<open>eghact_send_message\<close>; \<open>p\<close> is the address \<^verbatim>\<open>malloc\<close> returns for the message, one
  that is not allocated.
\<close>

definition eghact_send_message ::
  "EghactOrchestrator \<Rightarrow> msg_heap \<Rightarrow> nat \<Rightarrow> string \<Rightarrow> string \<Rightarrow> string
   \<Rightarrow> c_int \<times> EghactOrchestrator \<times> msg_heap"
where
  "eghact_send_message orch h p frm to pl =
     (let msg = \<lparr>from_service = frm, to_service = to, payload = pl, priority = 5, next = None\<rparr>;
          h1 = \<lparr>cell = (cell h)(p := msg), allocated = insert p (allocated h)\<rparr>;
          q = message_queue orch
      in case tail q of
           Some t \<Rightarrow>
             (0, orch\<lparr>message_queue := q\<lparr>tail := Some p\<rparr>\<rparr>,
              h1\<lparr>cell := (cell h1)(t := (cell h1 t)\<lparr>next := Some p\<rparr>)\<rparr>)
         | None \<Rightarrow>
             (0, orch\<lparr>message_queue := \<lparr>head = Some p, tail = Some p\<rparr>\<rparr>, h1))"

text \<open>
  The critical section of \<^verbatim>\<open>message_dispatcher_worker\<close>: \<open>None\<close> while the queue is
  empty (the worker waits on \<^verbatim>\<open>not_empty\<close>), else the address popped and the queue left.
\<close>

definition dequeue_head :: "MessageQueue \<Rightarrow> msg_heap \<Rightarrow> (nat \<times> MessageQueue) option" where
  "dequeue_head q h =
     (case head q of
        None \<Rightarrow> None
      | Some a \<Rightarrow>
          (let q1 = q\<lparr>head := next (cell h a)\<rparr>
           in Some (a, if head q1 = None then q1\<lparr>tail := None\<rparr> else q1)))"

text \<open>
  Modelled from the spec: \<^verbatim>\<open>deliver_message\<close> is declared in \<^verbatim>\<open>eghact-core.h\<close>, which is
  not among the sources. The spec has it as "an abstract deliver(node, message)
  operation" of an external collaborator, so its call is what the dispatcher lets out:
  \<open>Delivered target msg\<close>, and it leaves registry, balancer and queue alone. A message
  with no target is freed without a call: \<open>Discarded msg\<close>.
\<close>

datatype dispatch = Delivered nat Message | Discarded Message


definition free_message :: "msg_heap \<Rightarrow> nat \<Rightarrow> msg_heap" where
  "free_message h a = h\<lparr>allocated := allocated h - {a}\<rparr>"

text \<open>
  One iteration of the \<^verbatim>\<open>while (1)\<close> loop of \<^verbatim>\<open>message_dispatcher_worker\<close>:
  \<open>Inr None\<close> when it waits.
\<close>

definition message_dispatcher_iteration ::
  "EghactOrchestrator \<Rightarrow> msg_heap
   \<Rightarrow> fault + (dispatch \<times> EghactOrchestrator \<times> msg_heap) option"
where
  "message_dispatcher_iteration orch h =
     (case dequeue_head (message_queue orch) h of
        None \<Rightarrow> Inr None
      | Some (a, q') \<Rightarrow>
          (let msg = cell h a
           in case eghact_discover_service (orch\<lparr>message_queue := q'\<rparr>) (to_service msg) of
                Inl e \<Rightarrow> Inl e
              | Inr (target, orch') \<Rightarrow>
                  Inr (Some (case target of
                               Some t \<Rightarrow> Delivered t msg
                             | None \<Rightarrow> Discarded msg,
                             orch', free_message h a))))"


text \<open>
  At most \<open>n\<close> iterations of the dispatcher, with no sender running: what it dispatched,
  in order, and how it stopped (at a fault, or after \<open>n\<close> iterations, or waiting on the
  empty queue).
\<close>

fun dispatch_n ::
  "nat \<Rightarrow> EghactOrchestrator \<Rightarrow> msg_heap
   \<Rightarrow> dispatch list \<times> (fault + EghactOrchestrator \<times> msg_heap)"
where
  "dispatch_n 0 orch h = ([], Inr (orch, h))"
| "dispatch_n (Suc n) orch h =
     (case message_dispatcher_iteration orch h of
        Inl e \<Rightarrow> ([], Inl e)
      | Inr None \<Rightarrow> ([], Inr (orch, h))
      | Inr (Some (d, orch', h')) \<Rightarrow>
          (let (ds, r) = dispatch_n n orch' h' in (d # ds, r)))"

subsection \<open>The queue as a list\<close>

text \<open>
  The addresses \<open>as\<close> are the cells of the linked list from \<open>p\<close> to \<^verbatim>\<open>NULL\<close>, and a queue
  is well formed when its cells are distinct and allocated and \<^verbatim>\<open>tail\<close> is the last one.
\<close>

primrec msg_path :: "msg_heap \<Rightarrow> nat option \<Rightarrow> nat list \<Rightarrow> bool" where
  "msg_path h p [] = (p = None)"
| "msg_path h p (a # as) = (p = Some a \<and> msg_path h (next (cell h a)) as)"

definition queue_inv :: "msg_heap \<Rightarrow> MessageQueue \<Rightarrow> nat list \<Rightarrow> bool" where
  "queue_inv h q as =
     (msg_path h (head q) as \<and> distinct as \<and> set as \<subseteq> allocated h \<and>
      tail q = (if as = [] then None else Some (last as)))"

text \<open>What a message says: sender, destination, payload and priority.\<close>

type_synonym content = "string \<times> string \<times> string \<times> c_int"

definition content :: "Message \<Rightarrow> content" where
  "content m = (from_service m, to_service m, payload m, priority m)"

definition queue_contents :: "msg_heap \<Rightarrow> nat list \<Rightarrow> content list" where
  "queue_contents h as = map (\<lambda>a. content (cell h a)) as"

text \<open>
  The functional FIFO list of the spec: "enqueue appends to the tail", the dispatcher
  "pops the head".
\<close>

definition fifo_enqueue :: "content list \<Rightarrow> content \<Rightarrow> content list" where
  "fifo_enqueue xs x = xs @ [x]"


fun fifo_send_all :: "content list \<Rightarrow> (nat \<times> string \<times> string \<times> string) list \<Rightarrow> content list" where
  "fifo_send_all xs [] = xs"
| "fifo_send_all xs ((p, frm, to, pl) # rest) = fifo_send_all (fifo_enqueue xs (frm, to, pl, 5)) rest"

subsection \<open>The orchestrator at work\<close>

text \<open>
  The operations of the file as steps of one system: the orchestrator, the heap of
  messages and the state of the id generator. Nothing else in the file touches the
  registry or the queue.
\<close>

record system =
  orchestrator :: EghactOrchestrator
  messages :: msg_heap
  id_counter :: nat

datatype operation =
    Register string string c_int
  | Discover string
  | Send nat string string string
  | Health_check "nat \<Rightarrow> probe_outcome"
  | Dispatch

fun step :: "system \<Rightarrow> operation \<Rightarrow> fault + system" where
  "step s (Register name hst prt) =
     (let (rc, orch', g') = eghact_register_service (orchestrator s) name hst prt (id_counter s)
      in Inr (s\<lparr>orchestrator := orch', id_counter := g'\<rparr>))"
| "step s (Discover name) =
     (case eghact_discover_service (orchestrator s) name of
        Inl e \<Rightarrow> Inl e
      | Inr (selected, orch') \<Rightarrow> Inr (s\<lparr>orchestrator := orch'\<rparr>))"
| "step s (Send p frm to pl) =
     (let (rc, orch', h') = eghact_send_message (orchestrator s) (messages s) p frm to pl
      in Inr (s\<lparr>orchestrator := orch', messages := h'\<rparr>))"
| "step s (Health_check net) =
     Inr (s\<lparr>orchestrator := snd (health_check_iteration net (orchestrator s))\<rparr>)"
| "step s Dispatch =
     (case message_dispatcher_iteration (orchestrator s) (messages s) of
        Inl e \<Rightarrow> Inl e
      | Inr None \<Rightarrow> Inr s
      | Inr (Some (d, orch', h')) \<Rightarrow> Inr (s\<lparr>orchestrator := orch', messages := h'\<rparr>))"

fun run :: "system \<Rightarrow> operation list \<Rightarrow> fault + system" where
  "run s [] = Inr s"
| "run s (x # xs) = (case step s x of Inl e \<Rightarrow> Inl e | Inr s' \<Rightarrow> run s' xs)"

text \<open>The system as \<^verbatim>\<open>eghact_orchestrator_init\<close> leaves it, on a heap with nothing allocated.\<close>

definition initial_system :: "(nat \<Rightarrow> Message) \<Rightarrow> system" where
  "initial_system mem =
     \<lparr>orchestrator = eghact_orchestrator_init, messages = \<lparr>cell = mem, allocated = {}\<rparr>,
      id_counter = 0\<rparr>"

definition service_ids :: "system \<Rightarrow> string list" where
  "service_ids s = map service_id (services (registry (orchestrator s)))"

subsection \<open>Notions and systems for the properties\<close>

text \<open>
  Position \<open>i\<close> holds a node of the service whose \<^verbatim>\<open>health_status\<close> is 1 (healthy): the
  test of the \<^verbatim>\<open>while\<close> loop of \<^verbatim>\<open>select_service_instance\<close>.
\<close>

definition healthy_instance :: "ServiceNode list \<Rightarrow> string \<Rightarrow> nat \<Rightarrow> bool" where
  "healthy_instance svcs name i =
     (i < length svcs \<and> service_name (svcs ! i) = name \<and> health_status (svcs ! i) = 1)"

text \<open>Memory before any message is written.\<close>

definition blank_memory :: "nat \<Rightarrow> Message" where
  "blank_memory a = \<lparr>from_service = [], to_service = [], payload = [], priority = 0, next = None\<rparr>"

text \<open>What the caller of \<^verbatim>\<open>eghact_discover_service\<close> gets: the pointer returned.\<close>

definition discover_result :: "EghactOrchestrator \<Rightarrow> string \<Rightarrow> fault + nat option" where
  "discover_result orch name = map_sum id fst (eghact_discover_service orch name)"

text \<open>
  Two networks: one where no connection succeeds, one where only the node at position 1
  (the older of two) is down.
\<close>

definition all_down :: "nat \<Rightarrow> probe_outcome" where
  "all_down i = ConnectFailed"

definition older_down :: "nat \<Rightarrow> probe_outcome" where
  "older_down i = (if i = 1 then ConnectFailed else Response ''OK'')"

text \<open>
  The system after \<^verbatim>\<open>billing\<close> was registered once and its probe failed.
\<close>

definition billing_down :: system where
  "billing_down =
     \<lparr>orchestrator =
        \<lparr>registry =
           \<lparr>services =
              [\<lparr>service_id = ''svc-'', service_name = ''billing'', host = ''10.0.0.1'',
                port = 8080, health_status = 0, load = 0\<rparr>],
            num_services = 1\<rparr>,
         message_queue = \<lparr>head = None, tail = None\<rparr>,
         load_balancer = \<lparr>strategy = LB_ROUND_ROBIN, current_index = 0\<rparr>\<rparr>,
      messages = \<lparr>cell = blank_memory, allocated = {}\<rparr>,
      id_counter = 1\<rparr>"

text \<open>
  The same system after \<^verbatim>\<open>billing\<close> was registered a second time and probed again.
\<close>

definition billing_twice :: system where
  "billing_twice =
     \<lparr>orchestrator =
        \<lparr>registry =
           \<lparr>services =
              [\<lparr>service_id = ''svc-|'', service_name = ''billing'', host = ''10.0.0.2'',
                port = 8081, health_status = 0, load = 0\<rparr>,
               \<lparr>service_id = ''svc-'', service_name = ''billing'', host = ''10.0.0.1'',
                port = 8080, health_status = 0, load = 0\<rparr>],
            num_services = 2\<rparr>,
         message_queue = \<lparr>head = None, tail = None\<rparr>,
         load_balancer = \<lparr>strategy = LB_ROUND_ROBIN, current_index = 0\<rparr>\<rparr>,
      messages = \<lparr>cell = blank_memory, allocated = {}\<rparr>,
      id_counter = 2\<rparr>"

text \<open>
  The system after \<^verbatim>\<open>payments\<close> was registered at 10.0.0.1 and then at 10.0.0.2, with
  the health of the older node and the strategy of the balancer as given.
\<close>

definition payments_pair :: "c_int \<Rightarrow> LoadBalancingStrategy \<Rightarrow> system" where
  "payments_pair older_health strat =
     \<lparr>orchestrator =
        \<lparr>registry =
           \<lparr>services =
              [\<lparr>service_id = ''svc-|'', service_name = ''payments'', host = ''10.0.0.2'',
                port = 8080, health_status = 1, load = 0\<rparr>,
               \<lparr>service_id = ''svc-'', service_name = ''payments'', host = ''10.0.0.1'',
                port = 8080, health_status = older_health, load = 0\<rparr>],
            num_services = 2\<rparr>,
         message_queue = \<lparr>head = None, tail = None\<rparr>,
         load_balancer = \<lparr>strategy = strat, current_index = 0\<rparr>\<rparr>,
      messages = \<lparr>cell = blank_memory, allocated = {}\<rparr>,
      id_counter = 2\<rparr>"

text \<open>The initial system with another strategy set in the balancer.\<close>

definition initial_with :: "LoadBalancingStrategy \<Rightarrow> system" where
  "initial_with strat =
     (initial_system blank_memory)
       \<lparr>orchestrator := eghact_orchestrator_init
          \<lparr>load_balancer := \<lparr>strategy = strat, current_index = 0\<rparr>\<rparr>\<rparr>"

text \<open>The id issued at generator state \<open>k\<close>.\<close>

definition issued :: "nat \<Rightarrow> string" where
  "issued k = fst (generate_service_id k)"

text \<open>
  The ids in the registry are those issued so far, the latest first.
\<close>

definition ids_issued :: "system \<Rightarrow> bool" where
  "ids_issued s = (service_ids s = map issued (rev [0..<id_counter s]))"



text \<open>A message for a service that was never registered, sent while \<^verbatim>\<open>billing\<close> is down.\<close>

definition stray_sent :: "c_int \<times> EghactOrchestrator \<times> msg_heap" where
  "stray_sent =
     eghact_send_message (orchestrator billing_down) (messages billing_down)
       10 ''web'' ''nowhere'' ''hello''"

text \<open>\<open>n\<close> selections in a row for one service, with what each returned.\<close>

fun select_n ::
  "nat \<Rightarrow> LoadBalancer \<Rightarrow> ServiceRegistry \<Rightarrow> string
   \<Rightarrow> fault + (nat option list \<times> LoadBalancer \<times> ServiceRegistry)"
where
  "select_n 0 lb reg name = Inr ([], lb, reg)"
| "select_n (Suc n) lb reg name =
     (case select_service_instance lb reg name of
        Inl e \<Rightarrow> Inl e
      | Inr (selected, lb', reg') \<Rightarrow>
          (case select_n n lb' reg' name of
             Inl e \<Rightarrow> Inl e
           | Inr (rest, lb'', reg'') \<Rightarrow> Inr (selected # rest, lb'', reg'')))"

text \<open>
  A registry with three healthy nodes of \<^verbatim>\<open>payments\<close>, and a round-robin balancer whose
  counter stands at \<^verbatim>\<open>INT_MAX\<close>.
\<close>

definition three_healthy :: ServiceRegistry where
  "three_healthy =
     \<lparr>services =
        [\<lparr>service_id = ''svc-||'', service_name = ''payments'', host = ''10.0.0.3'',
          port = 8080, health_status = 1, load = 0\<rparr>,
         \<lparr>service_id = ''svc-|'', service_name = ''payments'', host = ''10.0.0.2'',
          port = 8080, health_status = 1, load = 0\<rparr>,
         \<lparr>service_id = ''svc-'', service_name = ''payments'', host = ''10.0.0.1'',
          port = 8080, health_status = 1, load = 0\<rparr>],
      num_services = 3\<rparr>"

definition counter_at_max :: LoadBalancer where
  "counter_at_max = \<lparr>strategy = LB_ROUND_ROBIN, current_index = 2147483647\<rparr>"








section \<open>Properties\<close>

subsection \<open>Circuit breaker\<close>

lemma closed_call:
  "state cb \<noteq> OPEN \<Longrightarrow>
   circuit_breaker_call cb f w = (fst (f w), cb_record cb (fst (f w)) (snd (f w)), snd (f w))"
  by (simp add: circuit_breaker_call_def cb_admit_def split: prod.splits)

lemma record_failure:
  "r \<noteq> 0 \<Longrightarrow> cb_record \<lparr>failure_count = c, failure_threshold = t, timeout_duration = d,
      last_failure_time = l, state = s\<rparr> r w' =
    \<lparr>failure_count = c + 1, failure_threshold = t, timeout_duration = d,
      last_failure_time = wall_clock w', state = (if sint (c + 1) \<ge> sint t then OPEN else s)\<rparr>"
  by (simp add: cb_record_def Let_def)

lemma three_failures:
  assumes "failing f1" "failing f2" "failing f3"
  shows "fst (three_calls (create_circuit_breaker 3 timeout) f1 f2 f3 w0) =
     \<lparr>failure_count = 3, failure_threshold = 3, timeout_duration = timeout,
      last_failure_time = wall_clock (snd (f3 (snd (f2 (snd (f1 w0)))))), state = OPEN\<rparr>"
proof -
  have r: "fst (f1 w) \<noteq> 0" "fst (f2 w) \<noteq> 0" "fst (f3 w) \<noteq> 0" for w
    using assms by (simp_all add: failing_def)
  show ?thesis
    by (simp add: three_calls_def create_circuit_breaker_def closed_call record_failure r)
qed

lemma open_rejects:
  "state cb = OPEN \<Longrightarrow> wall_clock w - last_failure_time cb \<le> sint (timeout_duration cb) \<Longrightarrow>
   circuit_breaker_call cb g w = (- 1, cb, w)"
  by (simp add: circuit_breaker_call_def cb_admit_def)

lemma open_probe:
  "state cb = OPEN \<Longrightarrow> wall_clock w - last_failure_time cb > sint (timeout_duration cb) \<Longrightarrow>
   circuit_breaker_call cb g w =
     (fst (g w), cb_record (cb\<lparr>state := HALF_OPEN\<rparr>) (fst (g w)) (snd (g w)), snd (g w))"
  by (simp add: circuit_breaker_call_def cb_admit_def split: prod.splits)

lemma half_open_success:
  "cb_record (cb\<lparr>state := HALF_OPEN\<rparr>) 0 w' = cb\<lparr>state := CLOSED, failure_count := 0\<rparr>"
  by (simp add: cb_record_def)

text \<open>
  C1. Take a breaker created with threshold 3 and call it three times in a row with
  failing functions: the breaker \<open>cb3\<close> that results is OPEN. From then on a call while
  no more than \<open>timeout_duration\<close> has passed since the last failure returns \<open>-1\<close> and
  leaves breaker and world as they were, whatever the wrapped function is, so the
  function was not invoked. A call after the timeout invokes the function: when it
  returns 0 the breaker is CLOSED with \<open>failure_count = 0\<close>; when it fails the breaker
  is OPEN again and \<open>last_failure_time\<close> is the time at the failure.
\<close>

theorem circuit_breaker_threshold_3:
  assumes "failing f1" "failing f2" "failing f3"
    and "cb3 = fst (three_calls (create_circuit_breaker 3 timeout) f1 f2 f3 w0)"
  shows "state cb3 = OPEN \<and>
    (wall_clock w_rej - last_failure_time cb3 \<le> sint timeout \<longrightarrow>
       circuit_breaker_call cb3 g_rej w_rej = (- 1, cb3, w_rej)) \<and>
    (wall_clock w_ok - last_failure_time cb3 > sint timeout \<and> fst (g_ok w_ok) = 0 \<longrightarrow>
       circuit_breaker_call cb3 g_ok w_ok =
         (0, cb3\<lparr>state := CLOSED, failure_count := 0\<rparr>, snd (g_ok w_ok))) \<and>
    (wall_clock w_bad - last_failure_time cb3 > sint timeout \<and> fst (g_bad w_bad) \<noteq> 0 \<longrightarrow>
       circuit_breaker_call cb3 g_bad w_bad =
         (fst (g_bad w_bad),
          cb3\<lparr>state := OPEN, failure_count := 4,
              last_failure_time := wall_clock (snd (g_bad w_bad))\<rparr>,
          snd (g_bad w_bad)))"
proof -
  have cb3: "cb3 = \<lparr>failure_count = 3, failure_threshold = 3, timeout_duration = timeout,
      last_failure_time = wall_clock (snd (f3 (snd (f2 (snd (f1 w0)))))), state = OPEN\<rparr>"
    using assms by (simp add: three_failures)
  have 1: "state cb3 = OPEN" and t: "timeout_duration cb3 = timeout"
    by (simp_all add: cb3)
  have 2: "circuit_breaker_call cb3 g_rej w_rej = (- 1, cb3, w_rej)"
    if "wall_clock w_rej - last_failure_time cb3 \<le> sint timeout"
    using that 1 t by (simp add: open_rejects)
  have 3: "circuit_breaker_call cb3 g_ok w_ok =
         (0, cb3\<lparr>state := CLOSED, failure_count := 0\<rparr>, snd (g_ok w_ok))"
    if "wall_clock w_ok - last_failure_time cb3 > sint timeout" "fst (g_ok w_ok) = 0"
    using that 1 t by (simp add: open_probe half_open_success)
  have 4: "circuit_breaker_call cb3 g_bad w_bad =
         (fst (g_bad w_bad),
          cb3\<lparr>state := OPEN, failure_count := 4,
              last_failure_time := wall_clock (snd (g_bad w_bad))\<rparr>,
          snd (g_bad w_bad))"
    if "wall_clock w_bad - last_failure_time cb3 > sint timeout" "fst (g_bad w_bad) \<noteq> 0"
  proof -
    have "circuit_breaker_call cb3 g_bad w_bad =
       (fst (g_bad w_bad),
        cb_record (cb3\<lparr>state := HALF_OPEN\<rparr>) (fst (g_bad w_bad)) (snd (g_bad w_bad)),
        snd (g_bad w_bad))"
      using that 1 t by (simp add: open_probe)
    moreover have "cb_record (cb3\<lparr>state := HALF_OPEN\<rparr>) (fst (g_bad w_bad)) (snd (g_bad w_bad)) =
        cb3\<lparr>state := OPEN, failure_count := 4,
            last_failure_time := wall_clock (snd (g_bad w_bad))\<rparr>"
      using that(2) by (simp add: cb3 record_failure)
    ultimately show ?thesis by simp
  qed
  from 1 2 3 4 show ?thesis by blast
qed

theorem circuit_breaker_threshold_3_witness:
  "failing always_fails \<and>
   fst (three_calls (create_circuit_breaker 3 30) always_fails always_fails always_fails
          \<lparr>wall_clock = 1000\<rparr>) =
     \<lparr>failure_count = 3, failure_threshold = 3, timeout_duration = 30,
      last_failure_time = 1003, state = OPEN\<rparr> \<and>
   circuit_breaker_call
     \<lparr>failure_count = 3, failure_threshold = 3, timeout_duration = 30,
      last_failure_time = 1003, state = OPEN\<rparr> always_succeeds \<lparr>wall_clock = 1033\<rparr> =
     (- 1, \<lparr>failure_count = 3, failure_threshold = 3, timeout_duration = 30,
      last_failure_time = 1003, state = OPEN\<rparr>, \<lparr>wall_clock = 1033\<rparr>) \<and>
   circuit_breaker_call
     \<lparr>failure_count = 3, failure_threshold = 3, timeout_duration = 30,
      last_failure_time = 1003, state = OPEN\<rparr> always_succeeds \<lparr>wall_clock = 1034\<rparr> =
     (0, \<lparr>failure_count = 0, failure_threshold = 3, timeout_duration = 30,
      last_failure_time = 1003, state = CLOSED\<rparr>, \<lparr>wall_clock = 1035\<rparr>) \<and>
   circuit_breaker_call
     \<lparr>failure_count = 3, failure_threshold = 3, timeout_duration = 30,
      last_failure_time = 1003, state = OPEN\<rparr> always_fails \<lparr>wall_clock = 1034\<rparr> =
     (1, \<lparr>failure_count = 4, failure_threshold = 3, timeout_duration = 30,
      last_failure_time = 1035, state = OPEN\<rparr>, \<lparr>wall_clock = 1035\<rparr>)"
proof -
  have f: "failing always_fails"
    by (simp add: failing_def always_fails_def)
  have cb3: "fst (three_calls (create_circuit_breaker 3 30) always_fails always_fails always_fails
          \<lparr>wall_clock = 1000\<rparr>) =
     \<lparr>failure_count = 3, failure_threshold = 3, timeout_duration = 30,
      last_failure_time = 1003, state = OPEN\<rparr>"
    by (simp add: three_failures [OF f f f] always_fails_def)
  show ?thesis
    using circuit_breaker_threshold_3 [OF f f f cb3 [symmetric],
        where w_rej = "\<lparr>wall_clock = 1033\<rparr>" and g_rej = always_succeeds
          and w_ok = "\<lparr>wall_clock = 1034\<rparr>" and g_ok = always_succeeds
          and w_bad = "\<lparr>wall_clock = 1034\<rparr>" and g_bad = always_fails]
    by (simp add: f cb3 always_fails_def always_succeeds_def)
qed

subsection \<open>Selection\<close>

lemma healthy_instance_Cons:
  "healthy_instance (n # ns) name i \<longleftrightarrow>
     (case i of 0 \<Rightarrow> service_name n = name \<and> health_status n = 1
      | Suc j \<Rightarrow> healthy_instance ns name j)"
  by (simp add: healthy_instance_def split: nat.splits)

lemma collect_instances_set:
  "i \<in> set (collect_instances k svcs name) \<longleftrightarrow> k \<le> i \<and> healthy_instance svcs name (i - k)"
proof (induction svcs arbitrary: k)
  case Nil
  then show ?case by (simp add: healthy_instance_def)
next
  case (Cons n ns)
  consider "i < k" | "i = k" | "Suc k \<le> i" by linarith
  then show ?case
  proof cases
    case 1
    then show ?thesis using Cons.IH [of "Suc k"] by simp
  next
    case 2
    then show ?thesis using Cons.IH [of "Suc k"] by (simp add: healthy_instance_Cons)
  next
    case 3
    then have "i - k = Suc (i - Suc k)" "i \<noteq> k" "k \<le> i" by simp_all
    then show ?thesis using Cons.IH [of "Suc k"] 3 by (simp add: healthy_instance_Cons)
  qed
qed

lemma collect_instances_sorted: "sorted_wrt (<) (collect_instances k svcs name)"
proof (induction svcs arbitrary: k)
  case Nil
  then show ?case by simp
next
  case (Cons n ns)
  then show ?case by (auto simp: collect_instances_set)
qed

lemma collect_instances_0:
  "i \<in> set (collect_instances 0 svcs name) \<longleftrightarrow> healthy_instance svcs name i"
  by (simp add: collect_instances_set)

lemma collect_instances_empty:
  "collect_instances 0 svcs name = [] \<longleftrightarrow> (\<forall>i. \<not> healthy_instance svcs name i)"
proof
  assume "collect_instances 0 svcs name = []"
  then show "\<forall>i. \<not> healthy_instance svcs name i"
    by (simp flip: collect_instances_0)
next
  assume none: "\<forall>i. \<not> healthy_instance svcs name i"
  show "collect_instances 0 svcs name = []"
  proof (cases "collect_instances 0 svcs name")
    case Nil
    then show ?thesis .
  next
    case (Cons x xs)
    then have "x \<in> set (collect_instances 0 svcs name)" by simp
    then have "healthy_instance svcs name x" by (simp only: collect_instances_0)
    with none show ?thesis by blast
  qed
qed

lemma least_connections_mem: "least_connections svcs sel rest \<in> set (sel # rest)"
proof (induction rest arbitrary: sel)
  case Nil
  then show ?case by simp
next
  case (Cons i rest)
  show ?case
    using Cons.IH [of i] Cons.IH [of sel] by (simp split: if_splits) blast
qed

lemma least_connections_moved:
  "least_connections svcs sel rest = sel \<or>
   sint (load (svcs ! least_connections svcs sel rest)) < sint (load (svcs ! sel))"
proof (induction rest arbitrary: sel)
  case Nil
  then show ?case by simp
next
  case (Cons i rest)
  show ?case
    using Cons.IH [of i] Cons.IH [of sel] by (auto split: if_splits)
qed

lemma least_connections_le_start:
  "sint (load (svcs ! least_connections svcs sel rest)) \<le> sint (load (svcs ! sel))"
  using least_connections_moved [of svcs sel rest] by auto

lemma least_connections_min:
  "j \<in> set (sel # rest) \<Longrightarrow>
   sint (load (svcs ! least_connections svcs sel rest)) \<le> sint (load (svcs ! j))"
proof (induction rest arbitrary: sel)
  case Nil
  then show ?case by simp
next
  case (Cons i rest)
  show ?case
  proof (cases "sint (load (svcs ! i)) < sint (load (svcs ! sel))")
    case True
    then have r: "least_connections svcs sel (i # rest) = least_connections svcs i rest"
      by simp
    from Cons.prems consider "j \<in> set (i # rest)" | "j = sel" by auto
    then show ?thesis
    proof cases
      case 1
      then show ?thesis unfolding r by (rule Cons.IH)
    next
      case 2
      then show ?thesis
        unfolding r using least_connections_le_start [of svcs i rest] True by simp
    qed
  next
    case False
    then have r: "least_connections svcs sel (i # rest) = least_connections svcs sel rest"
      by simp
    from Cons.prems consider "j \<in> set (sel # rest)" | "j = i" by auto
    then show ?thesis
    proof cases
      case 1
      then show ?thesis unfolding r by (rule Cons.IH)
    next
      case 2
      then show ?thesis
        unfolding r using least_connections_le_start [of svcs sel rest] False by simp
    qed
  qed
qed

lemma least_connections_first:
  "sorted_wrt (<) (sel # rest) \<Longrightarrow> j \<in> set (sel # rest) \<Longrightarrow>
   j < least_connections svcs sel rest \<Longrightarrow>
   sint (load (svcs ! least_connections svcs sel rest)) < sint (load (svcs ! j))"
proof (induction rest arbitrary: sel)
  case Nil
  then show ?case by simp
next
  case (Cons i rest)
  show ?case
  proof (cases "sint (load (svcs ! i)) < sint (load (svcs ! sel))")
    case True
    then have r: "least_connections svcs sel (i # rest) = least_connections svcs i rest"
      by simp
    have s: "sorted_wrt (<) (i # rest)" using Cons.prems(1) by simp
    have jr: "j < least_connections svcs i rest" using Cons.prems(3) r by simp
    from Cons.prems(2) consider "j \<in> set (i # rest)" | "j = sel" by auto
    then show ?thesis
    proof cases
      case 1
      then show ?thesis unfolding r using Cons.IH [OF s _ jr] by simp
    next
      case 2
      then show ?thesis
        unfolding r using least_connections_le_start [of svcs i rest] True by simp
    qed
  next
    case False
    then have r: "least_connections svcs sel (i # rest) = least_connections svcs sel rest"
      by simp
    have s: "sorted_wrt (<) (sel # rest)" using Cons.prems(1) by simp
    have jr: "j < least_connections svcs sel rest" using Cons.prems(3) r by simp
    from Cons.prems(2) consider "j \<in> set (sel # rest)" | "j = i" by auto
    then show ?thesis
    proof cases
      case 1
      then show ?thesis unfolding r using Cons.IH [OF s _ jr] by simp
    next
      case 2
      have "sel < i" using Cons.prems(1) by simp
      then have "least_connections svcs sel rest \<noteq> sel" using jr 2 by simp
      then have "sint (load (svcs ! least_connections svcs sel rest)) < sint (load (svcs ! sel))"
        using least_connections_moved [of svcs sel rest] by simp
      then show ?thesis unfolding r using False 2 by simp
    qed
  qed
qed

lemma smod_nat_bound:
  fixes x :: int
  assumes "0 < n" "0 \<le> x smod int n"
  shows "nat (x smod int n) < n"
proof -
  have "x smod int n = sgn x * (\<bar>x\<bar> mod int n)"
    by (simp add: smod_int_alt_def)
  moreover have "\<bar>x\<bar> mod int n < int n" "0 \<le> \<bar>x\<bar> mod int n"
    using assms(1) by simp_all
  ultimately have "x smod int n < int n"
    by (cases "x < 0"; cases "x = 0") (simp_all add: sgn_if)
  then show ?thesis using assms(2) by linarith
qed

lemma select_none:
  assumes "\<forall>i. \<not> healthy_instance (services reg) name i"
  shows "select_service_instance lb reg name = Inr (None, lb, reg)"
  using assms by (simp add: select_service_instance_def flip: collect_instances_empty)

lemma select_Some:
  assumes "select_service_instance lb reg name = Inr (Some i, lb', reg')"
  shows "healthy_instance (services reg) name i \<and> reg' = increment_load reg i"
proof -
  let ?xs = "collect_instances 0 (services reg) name"
  have ne: "?xs \<noteq> []"
    using assms by (auto simp: select_service_instance_def)
  show ?thesis
  proof (cases "strategy lb")
    case LB_ROUND_ROBIN
    let ?k = "sint (current_index lb) smod int (length ?xs)"
    from assms ne LB_ROUND_ROBIN have k: "0 \<le> ?k" and i: "i = ?xs ! nat ?k"
      and r: "reg' = increment_load reg i"
      by (auto simp: select_service_instance_def Let_def split: if_splits)
    have "nat ?k < length ?xs"
      using ne k by (intro smod_nat_bound) simp_all
    then have "i \<in> set ?xs" unfolding i by (rule nth_mem)
    then show ?thesis using r by (simp add: collect_instances_0)
  next
    case LB_LEAST_CONNECTIONS
    from assms ne LB_LEAST_CONNECTIONS
    have i: "i = least_connections (services reg) (hd ?xs) (tl ?xs)"
      and r: "reg' = increment_load reg i"
      by (auto simp: select_service_instance_def Let_def)
    have "i \<in> set (hd ?xs # tl ?xs)" unfolding i by (rule least_connections_mem)
    then have "i \<in> set ?xs" using ne by simp
    then show ?thesis using r by (simp add: collect_instances_0)
  next
    case LB_WEIGHTED
    then show ?thesis using assms ne by (simp add: select_service_instance_def)
  next
    case LB_IP_HASH
    then show ?thesis using assms ne by (simp add: select_service_instance_def)
  qed
qed

lemma select_least_connections:
  assumes "strategy lb = LB_LEAST_CONNECTIONS"
    and "healthy_instance (services reg) name j"
  shows "\<exists>i. select_service_instance lb reg name = Inr (Some i, lb, increment_load reg i) \<and>
     healthy_instance (services reg) name i \<and>
     sint (load (services reg ! i)) \<le> sint (load (services reg ! j)) \<and>
     (j < i \<longrightarrow> sint (load (services reg ! i)) < sint (load (services reg ! j)))"
proof -
  let ?xs = "collect_instances 0 (services reg) name"
  let ?i = "least_connections (services reg) (hd ?xs) (tl ?xs)"
  have j: "j \<in> set ?xs"
    using assms(2) by (simp add: collect_instances_0)
  then have ne: "?xs \<noteq> []" by auto
  then have xs: "hd ?xs # tl ?xs = ?xs" by simp
  have sel: "select_service_instance lb reg name = Inr (Some ?i, lb, increment_load reg ?i)"
    using ne assms(1) by (simp add: select_service_instance_def Let_def)
  have "?i \<in> set (hd ?xs # tl ?xs)" by (rule least_connections_mem)
  then have h: "healthy_instance (services reg) name ?i"
    by (simp only: xs collect_instances_0)
  have j': "j \<in> set (hd ?xs # tl ?xs)" using j by (simp only: xs)
  have srt: "sorted_wrt (<) (hd ?xs # tl ?xs)"
    by (simp only: xs collect_instances_sorted)
  have le: "sint (load (services reg ! ?i)) \<le> sint (load (services reg ! j))"
    using j' by (rule least_connections_min)
  have lt: "sint (load (services reg ! ?i)) < sint (load (services reg ! j))" if "j < ?i"
    using srt j' that by (rule least_connections_first)
  from sel h le lt show ?thesis by blast
qed

subsection \<open>Discovery\<close>

lemmas run_defs =
  initial_system_def initial_with_def eghact_orchestrator_init_def eghact_register_service_def
  generate_service_id_def health_check_iteration_def all_down_def older_down_def

lemma run_billing_down:
  "run (initial_system blank_memory)
     [Register ''billing'' ''10.0.0.1'' 8080, Health_check all_down] = Inr billing_down"
  by (simp add: run_defs billing_down_def)

lemma run_payments_down:
  "run (initial_system blank_memory)
     [Register ''payments'' ''10.0.0.1'' 8080, Register ''payments'' ''10.0.0.2'' 8080,
      Health_check older_down] = Inr (payments_pair 0 LB_ROUND_ROBIN)"
  by (simp add: run_defs payments_pair_def)

lemma run_payments_pair:
  "run (initial_with LB_LEAST_CONNECTIONS)
     [Register ''payments'' ''10.0.0.1'' 8080, Register ''payments'' ''10.0.0.2'' 8080]
   = Inr (payments_pair 1 LB_LEAST_CONNECTIONS)"
  by (simp add: run_defs payments_pair_def)

lemma not_healthy_iff:
  "(\<forall>i. \<not> healthy_instance svcs name i) \<longleftrightarrow>
   (\<forall>n \<in> set svcs. service_name n = name \<longrightarrow> health_status n \<noteq> 1)"
proof
  assume a: "\<forall>i. \<not> healthy_instance svcs name i"
  show "\<forall>n \<in> set svcs. service_name n = name \<longrightarrow> health_status n \<noteq> 1"
  proof (intro ballI impI)
    fix n assume "n \<in> set svcs" "service_name n = name"
    then obtain i where "i < length svcs" "svcs ! i = n" "service_name (svcs ! i) = name"
      by (auto simp: in_set_conv_nth)
    with a show "health_status n \<noteq> 1"
      by (auto simp: healthy_instance_def)
  qed
next
  assume "\<forall>n \<in> set svcs. service_name n = name \<longrightarrow> health_status n \<noteq> 1"
  then show "\<forall>i. \<not> healthy_instance svcs name i"
    by (simp add: healthy_instance_def)
qed

lemma discover_none:
  assumes "\<forall>n \<in> set (services (registry orch)). service_name n = name \<longrightarrow> health_status n \<noteq> 1"
  shows "eghact_discover_service orch name = Inr (None, orch)"
proof -
  have "\<forall>i. \<not> healthy_instance (services (registry orch)) name i"
    using assms by (simp only: not_healthy_iff)
  then show ?thesis
    by (simp add: eghact_discover_service_def select_none)
qed

text \<open>
  C2 (as the code has it). \<^verbatim>\<open>eghact_discover_service\<close> has one failure value, \<^verbatim>\<open>NULL\<close>:
  whenever the registry holds no healthy node of the name, be it because the name was
  never registered or because all its nodes are unhealthy, the call returns \<^verbatim>\<open>NULL\<close> and
  changes nothing.
\<close>

theorem discover_without_healthy_instance:
  assumes "\<forall>n \<in> set (services (registry orch)). service_name n = name \<longrightarrow> health_status n \<noteq> 1"
  shows "eghact_discover_service orch name = Inr (None, orch) \<and> discover_result orch name = Inr None"
  using discover_none [OF assms] by (simp add: discover_result_def)

theorem discover_without_healthy_instance_witness:
  "map service_name (services (registry (orchestrator billing_down))) = [''billing''] \<and>
   map health_status (services (registry (orchestrator billing_down))) = [0] \<and>
   eghact_discover_service (orchestrator billing_down) ''billing'' =
     Inr (None, orchestrator billing_down) \<and>
   discover_result (orchestrator billing_down) ''billing'' = Inr None"
proof -
  have h: "\<forall>n \<in> set (services (registry (orchestrator billing_down))).
       service_name n = ''billing'' \<longrightarrow> health_status n \<noteq> 1"
    by (simp add: billing_down_def)
  show ?thesis
    using discover_without_healthy_instance [OF h] by (simp add: billing_down_def)
qed

text \<open>
  C2 as stated fails: on a fresh orchestrator, and after \<^verbatim>\<open>billing\<close> was registered and
  its node marked unhealthy by a failed probe, \<^verbatim>\<open>discover("billing")\<close> returns the same
  value, \<^verbatim>\<open>NULL\<close>.
\<close>

theorem discover_not_found_counterexample:
  "run (initial_system blank_memory)
     [Register ''billing'' ''10.0.0.1'' 8080, Health_check all_down] = Inr billing_down \<and>
   discover_result (orchestrator (initial_system blank_memory)) ''billing'' = Inr None \<and>
   discover_result (orchestrator billing_down) ''billing'' = Inr None"
proof -
  have a: "discover_result (orchestrator (initial_system blank_memory)) ''billing'' = Inr None"
    by (simp add: discover_result_def discover_none initial_system_def eghact_orchestrator_init_def)
  have b: "discover_result (orchestrator billing_down) ''billing'' = Inr None"
    by (simp add: discover_result_def discover_none billing_down_def)
  from run_billing_down a b show ?thesis by simp
qed

text \<open>
  C3 (as the code has it). Under least connections, whenever the service has a healthy
  node \<open>j\<close>, the balancer selects a healthy node \<open>i\<close> of the service whose load (before the
  increment) is at most that of \<open>j\<close>, and strictly less when \<open>j\<close> comes before \<open>i\<close> in the
  list. Registration pushes at the front of the list, so among the nodes of minimal load
  the one registered last is selected.
\<close>

theorem least_connections_first_minimum:
  assumes "strategy lb = LB_LEAST_CONNECTIONS"
    and "healthy_instance (services reg) name j"
  shows "\<exists>i. select_service_instance lb reg name = Inr (Some i, lb, increment_load reg i) \<and>
     healthy_instance (services reg) name i \<and>
     sint (load (services reg ! i)) \<le> sint (load (services reg ! j)) \<and>
     (j < i \<longrightarrow> sint (load (services reg ! i)) < sint (load (services reg ! j)))"
  using assms by (rule select_least_connections)

lemma select_payments_pair:
  "select_service_instance (load_balancer (orchestrator (payments_pair 1 LB_LEAST_CONNECTIONS)))
      (registry (orchestrator (payments_pair 1 LB_LEAST_CONNECTIONS))) ''payments'' =
    Inr (Some 0, load_balancer (orchestrator (payments_pair 1 LB_LEAST_CONNECTIONS)),
         increment_load (registry (orchestrator (payments_pair 1 LB_LEAST_CONNECTIONS))) 0)"
  by (simp add: payments_pair_def select_service_instance_def)

theorem least_connections_first_minimum_witness:
  "strategy (load_balancer (orchestrator (payments_pair 1 LB_LEAST_CONNECTIONS)))
     = LB_LEAST_CONNECTIONS \<and>
   healthy_instance (services (registry (orchestrator (payments_pair 1 LB_LEAST_CONNECTIONS))))
     ''payments'' 1 \<and>
   select_service_instance (load_balancer (orchestrator (payments_pair 1 LB_LEAST_CONNECTIONS)))
      (registry (orchestrator (payments_pair 1 LB_LEAST_CONNECTIONS))) ''payments'' =
    Inr (Some 0, load_balancer (orchestrator (payments_pair 1 LB_LEAST_CONNECTIONS)),
         increment_load (registry (orchestrator (payments_pair 1 LB_LEAST_CONNECTIONS))) 0)"
proof -
  have s: "strategy (load_balancer (orchestrator (payments_pair 1 LB_LEAST_CONNECTIONS)))
     = LB_LEAST_CONNECTIONS"
    by (simp add: payments_pair_def)
  have h: "healthy_instance (services (registry (orchestrator (payments_pair 1 LB_LEAST_CONNECTIONS))))
     ''payments'' 1"
    by (simp add: payments_pair_def healthy_instance_def)
  from least_connections_first_minimum [OF s h] s h select_payments_pair
  show ?thesis by simp
qed

text \<open>
  C3 as stated fails: with 10.0.0.1 registered first and 10.0.0.2 second, both healthy
  with load 0, least connections selects position 0, the node at 10.0.0.2.
\<close>

theorem least_connections_tie_counterexample:
  "run (initial_with LB_LEAST_CONNECTIONS)
     [Register ''payments'' ''10.0.0.1'' 8080, Register ''payments'' ''10.0.0.2'' 8080]
     = Inr (payments_pair 1 LB_LEAST_CONNECTIONS) \<and>
   map load (services (registry (orchestrator (payments_pair 1 LB_LEAST_CONNECTIONS)))) = [0, 0] \<and>
   discover_result (orchestrator (payments_pair 1 LB_LEAST_CONNECTIONS)) ''payments'' = Inr (Some 0) \<and>
   host (services (registry (orchestrator (payments_pair 1 LB_LEAST_CONNECTIONS))) ! 0) = ''10.0.0.2''"
proof -
  have "discover_result (orchestrator (payments_pair 1 LB_LEAST_CONNECTIONS)) ''payments'' = Inr (Some 0)"
    by (simp add: discover_result_def eghact_discover_service_def select_payments_pair)
  moreover have "map load (services (registry (orchestrator (payments_pair 1 LB_LEAST_CONNECTIONS)))) = [0, 0]"
    "host (services (registry (orchestrator (payments_pair 1 LB_LEAST_CONNECTIONS))) ! 0) = ''10.0.0.2''"
    by (simp_all add: payments_pair_def)
  ultimately show ?thesis using run_payments_pair by simp
qed

lemma increment_load_healthy:
  "healthy_instance (services (increment_load reg i)) name j = healthy_instance (services reg) name j"
  by (cases "i < length (services reg)")
     (auto simp: healthy_instance_def increment_load_def nth_list_update)

lemma discover_Some:
  assumes "eghact_discover_service orch name = Inr (Some i, orch')"
  shows "healthy_instance (services (registry orch)) name i \<and>
         healthy_instance (services (registry orch')) name i"
proof -
  from assms obtain lb' reg' where
    sel: "select_service_instance (load_balancer orch) (registry orch) name = Inr (Some i, lb', reg')"
    and o: "orch' = orch\<lparr>registry := reg', load_balancer := lb'\<rparr>"
    by (auto simp: eghact_discover_service_def split: sum.splits)
  from select_Some [OF sel] show ?thesis
    by (simp add: o increment_load_healthy)
qed

text \<open>
  C5. After any sequence of operations, from any system, an instance that
  \<^verbatim>\<open>eghact_discover_service\<close> returns is a node of the requested service whose
  \<^verbatim>\<open>health_status\<close> is 1; a node whose status is 0 is not returned.
\<close>

theorem discover_returns_healthy:
  assumes "run s0 ops = Inr s"
    and "eghact_discover_service (orchestrator s) name = Inr (Some i, orch')"
  shows "i < length (services (registry (orchestrator s))) \<and>
         service_name (services (registry (orchestrator s)) ! i) = name \<and>
         health_status (services (registry (orchestrator s)) ! i) = 1 \<and>
         health_status (services (registry (orchestrator s)) ! i) \<noteq> 0"
  using discover_Some [OF assms(2)] by (simp add: healthy_instance_def)

theorem discover_returns_healthy_witness:
  "run (initial_system blank_memory)
     [Register ''payments'' ''10.0.0.1'' 8080, Register ''payments'' ''10.0.0.2'' 8080,
      Health_check older_down] = Inr (payments_pair 0 LB_ROUND_ROBIN) \<and>
   discover_result (orchestrator (payments_pair 0 LB_ROUND_ROBIN)) ''payments'' = Inr (Some 0) \<and>
   host (services (registry (orchestrator (payments_pair 0 LB_ROUND_ROBIN))) ! 0) = ''10.0.0.2'' \<and>
   health_status (services (registry (orchestrator (payments_pair 0 LB_ROUND_ROBIN))) ! 0) = 1"
proof -
  have d: "eghact_discover_service (orchestrator (payments_pair 0 LB_ROUND_ROBIN)) ''payments'' =
    Inr (Some 0, (orchestrator (payments_pair 0 LB_ROUND_ROBIN))
      \<lparr>registry := increment_load (registry (orchestrator (payments_pair 0 LB_ROUND_ROBIN))) 0,
       load_balancer := \<lparr>strategy = LB_ROUND_ROBIN, current_index = 1\<rparr>\<rparr>)"
    by (simp add: eghact_discover_service_def select_service_instance_def payments_pair_def)
  from discover_returns_healthy [OF run_payments_down d] run_payments_down d
  show ?thesis by (simp add: discover_result_def payments_pair_def)
qed

subsection \<open>Registration\<close>

lemma issued_inj: "issued j = issued k \<longleftrightarrow> j = k"
proof
  assume "issued j = issued k"
  then have "length (issued j) = length (issued k)" by simp
  then show "j = k" by (simp add: issued_def generate_service_id_def)
qed simp

lemma ids_increment_load:
  "map service_id (services (increment_load reg i)) = map service_id (services reg)"
proof (cases "i < length (services reg)")
  case True
  then show ?thesis
    by (simp add: increment_load_def map_update list_update_same_conv)
next
  case False
  then show ?thesis by (simp add: increment_load_def list_update_beyond)
qed

lemma health_check_nodes_ids:
  "map service_id (snd (health_check_nodes net k svcs)) = map service_id svcs"
  by (induction svcs arbitrary: k) (simp_all add: case_prod_beta)

lemma health_check_nodes_events:
  "fst (health_check_nodes net k svcs) = map (\<lambda>n. Probe (host n) (port n)) svcs"
  by (induction svcs arbitrary: k) (simp_all add: case_prod_beta)

lemma select_registry:
  assumes "select_service_instance lb reg name = Inr (r, lb', reg')"
  shows "reg' = reg \<or> (\<exists>i. reg' = increment_load reg i)"
  using assms
  by (auto simp: select_service_instance_def Let_def
           split: if_splits LoadBalancingStrategy.splits)

lemma discover_ids:
  assumes "eghact_discover_service orch name = Inr (r, orch')"
  shows "map service_id (services (registry orch')) = map service_id (services (registry orch))"
proof -
  from assms obtain lb' reg' where
    sel: "select_service_instance (load_balancer orch) (registry orch) name = Inr (r, lb', reg')"
    and o: "orch' = orch\<lparr>registry := reg', load_balancer := lb'\<rparr>"
    by (auto simp: eghact_discover_service_def split: sum.splits)
  from select_registry [OF sel] show ?thesis
    by (auto simp: o ids_increment_load)
qed

lemma send_registry:
  "registry (fst (snd (eghact_send_message orch h p frm to pl))) = registry orch"
  by (simp add: eghact_send_message_def Let_def split: option.splits)

lemma dispatcher_ids:
  assumes "message_dispatcher_iteration orch h = Inr (Some (d, orch', h'))"
  shows "map service_id (services (registry orch')) = map service_id (services (registry orch))"
proof -
  from assms obtain a q' r where
    "eghact_discover_service (orch\<lparr>message_queue := q'\<rparr>) (to_service (cell h a)) = Inr (r, orch')"
    by (auto simp: message_dispatcher_iteration_def Let_def split: option.splits sum.splits)
  from discover_ids [OF this] show ?thesis by simp
qed

lemma step_ids:
  assumes "step s x = Inr s'"
  shows "(service_ids s' = service_ids s \<and> id_counter s' = id_counter s) \<or>
         (service_ids s' = issued (id_counter s) # service_ids s \<and>
          id_counter s' = Suc (id_counter s))"
proof (cases x)
  case (Register name hst prt)
  with assms show ?thesis
    by (auto simp: service_ids_def eghact_register_service_def issued_def
             generate_service_id_def Let_def)
next
  case (Discover name)
  with assms obtain r orch' where
    d: "eghact_discover_service (orchestrator s) name = Inr (r, orch')"
    and s': "s' = s\<lparr>orchestrator := orch'\<rparr>"
    by (auto split: sum.splits)
  from discover_ids [OF d] show ?thesis by (simp add: s' service_ids_def)
next
  case (Send p frm to pl)
  with assms have "s' = s\<lparr>orchestrator := fst (snd (eghact_send_message (orchestrator s) (messages s) p frm to pl)),
      messages := snd (snd (eghact_send_message (orchestrator s) (messages s) p frm to pl))\<rparr>"
    by (auto split: prod.splits)
  then show ?thesis by (simp add: service_ids_def send_registry)
next
  case (Health_check net)
  with assms have "s' = s\<lparr>orchestrator := snd (health_check_iteration net (orchestrator s))\<rparr>"
    by simp
  then show ?thesis
    using health_check_nodes_ids [of net 0 "services (registry (orchestrator s))"]
    by (simp add: service_ids_def health_check_iteration_def case_prod_beta)
next
  case Dispatch
  show ?thesis
  proof (cases "message_dispatcher_iteration (orchestrator s) (messages s)")
    case (Inl e)
    with assms Dispatch show ?thesis by simp
  next
    case (Inr r)
    show ?thesis
    proof (cases r)
      case None
      with assms Dispatch Inr show ?thesis by simp
    next
      case (Some t)
      obtain d orch' h' where t: "t = (d, orch', h')" by (cases t)
      from assms Dispatch Inr Some t have "s' = s\<lparr>orchestrator := orch', messages := h'\<rparr>"
        by simp
      moreover from Inr Some t
      have "map service_id (services (registry orch')) =
            map service_id (services (registry (orchestrator s)))"
        by (intro dispatcher_ids) simp
      ultimately show ?thesis by (simp add: service_ids_def)
    qed
  qed
qed

lemma run_ids_issued:
  "ids_issued s \<Longrightarrow> run s ops = Inr s' \<Longrightarrow> ids_issued s'"
proof (induction ops arbitrary: s)
  case Nil
  then show ?case by simp
next
  case (Cons x xs)
  from Cons.prems(2) obtain s1 where st: "step s x = Inr s1" and r: "run s1 xs = Inr s'"
    by (auto split: sum.splits)
  from step_ids [OF st] Cons.prems(1) have "ids_issued s1"
    by (auto simp: ids_issued_def)
  then show ?case using r by (rule Cons.IH)
qed

lemma run_ids_kept:
  "run s ops = Inr s' \<Longrightarrow> \<exists>new. service_ids s' = new @ service_ids s"
proof (induction ops arbitrary: s)
  case Nil
  then show ?case by simp
next
  case (Cons x xs)
  from Cons.prems obtain s1 where st: "step s x = Inr s1" and r: "run s1 xs = Inr s'"
    by (auto split: sum.splits)
  from Cons.IH [OF r] obtain new where n: "service_ids s' = new @ service_ids s1" ..
  from step_ids [OF st] show ?case
  proof
    assume "service_ids s1 = service_ids s \<and> id_counter s1 = id_counter s"
    with n show ?thesis by auto
  next
    assume "service_ids s1 = issued (id_counter s) # service_ids s \<and>
            id_counter s1 = Suc (id_counter s)"
    with n have "service_ids s' = (new @ [issued (id_counter s)]) @ service_ids s" by simp
    then show ?thesis ..
  qed
qed

lemma initial_ids_issued: "ids_issued (initial_system mem)"
  by (simp add: ids_issued_def initial_system_def service_ids_def eghact_orchestrator_init_def)

lemma ids_issued_fresh:
  assumes "ids_issued s"
  shows "issued (id_counter s) \<notin> set (service_ids s) \<and> distinct (service_ids s)"
proof -
  have "distinct (map issued (rev [0..<id_counter s]))"
    by (simp add: distinct_map inj_on_def issued_inj)
  moreover have "issued (id_counter s) \<notin> set (map issued (rev [0..<id_counter s]))"
    by (auto simp: issued_inj)
  ultimately show ?thesis using assms by (simp add: ids_issued_def)
qed

text \<open>
  C7. In any system reached from the initial one, \<^verbatim>\<open>eghact_register_service\<close> returns 0
  and pushes one node at the front of the registry: it has the name, host and port
  given, \<^verbatim>\<open>health_status\<close> 1 and \<^verbatim>\<open>load\<close> 0, its id is the id of no node registered
  before, and the ids of the registry stay distinct.
\<close>

theorem register_creates_fresh_node:
  assumes "run (initial_system mem) ops = Inr s"
    and "eghact_register_service (orchestrator s) name hst prt (id_counter s) = (rc, orch', g')"
  shows "rc = 0 \<and>
    tl (services (registry orch')) = services (registry (orchestrator s)) \<and>
    service_name (hd (services (registry orch'))) = name \<and>
    host (hd (services (registry orch'))) = hst \<and>
    port (hd (services (registry orch'))) = prt \<and>
    health_status (hd (services (registry orch'))) = 1 \<and>
    load (hd (services (registry orch'))) = 0 \<and>
    service_id (hd (services (registry orch'))) \<notin> set (service_ids s) \<and>
    distinct (map service_id (services (registry orch')))"
proof -
  have inv: "ids_issued s"
    using initial_ids_issued assms(1) by (rule run_ids_issued)
  from assms(2) have rc: "rc = 0"
    and o: "services (registry orch') =
      \<lparr>service_id = issued (id_counter s), service_name = name, host = hst, port = prt,
       health_status = 1, load = 0\<rparr> # services (registry (orchestrator s))"
    by (auto simp: eghact_register_service_def issued_def Let_def split: prod.splits)
  from ids_issued_fresh [OF inv] show ?thesis
    by (simp add: rc o service_ids_def)
qed

theorem register_creates_fresh_node_witness:
  "run (initial_system blank_memory)
     [Register ''billing'' ''10.0.0.1'' 8080, Health_check all_down] = Inr billing_down \<and>
   eghact_register_service (orchestrator billing_down) ''billing'' ''10.0.0.2'' 8081
       (id_counter billing_down) =
     (0, (orchestrator billing_down)
          \<lparr>registry := \<lparr>services =
              \<lparr>service_id = ''svc-|'', service_name = ''billing'', host = ''10.0.0.2'',
               port = 8081, health_status = 1, load = 0\<rparr>
              # services (registry (orchestrator billing_down)),
             num_services = 2\<rparr>\<rparr>, 2) \<and>
   service_ids billing_down = [''svc-'']"
proof -
  have r: "eghact_register_service (orchestrator billing_down) ''billing'' ''10.0.0.2'' 8081
       (id_counter billing_down) =
     (0, (orchestrator billing_down)
          \<lparr>registry := \<lparr>services =
              \<lparr>service_id = ''svc-|'', service_name = ''billing'', host = ''10.0.0.2'',
               port = 8081, health_status = 1, load = 0\<rparr>
              # services (registry (orchestrator billing_down)),
             num_services = 2\<rparr>\<rparr>, 2)"
    by (simp add: eghact_register_service_def generate_service_id_def billing_down_def)
  from register_creates_fresh_node [OF run_billing_down r] run_billing_down r
  show ?thesis by (simp add: service_ids_def billing_down_def)
qed

text \<open>
  C8 (as the code has it). The file has no operation that removes a node: after any
  sequence of its operations the ids registered before are still in the registry, in
  the same order, behind the ids registered since.
\<close>

theorem registered_nodes_stay:
  assumes "run s ops = Inr s'"
  shows "(\<exists>new. service_ids s' = new @ service_ids s) \<and> set (service_ids s) \<subseteq> set (service_ids s')"
  using run_ids_kept [OF assms] by auto

theorem registered_nodes_stay_witness:
  "run billing_down
     [Discover ''billing'', Register ''billing'' ''10.0.0.2'' 8081, Health_check all_down, Dispatch]
     = Inr billing_twice \<and>
   service_ids billing_down = [''svc-''] \<and>
   service_ids billing_twice = [''svc-|'', ''svc-'']"
proof -
  have r: "run billing_down
     [Discover ''billing'', Register ''billing'' ''10.0.0.2'' 8081, Health_check all_down, Dispatch]
     = Inr billing_twice"
    by (simp add: billing_down_def billing_twice_def discover_none health_check_iteration_def
        all_down_def message_dispatcher_iteration_def dequeue_head_def
        eghact_register_service_def generate_service_id_def)
  from registered_nodes_stay [OF r] r show ?thesis
    by (simp add: service_ids_def billing_down_def billing_twice_def)
qed

text \<open>
  C8 as stated fails: once \<^verbatim>\<open>billing\<close> is registered with id \<^verbatim>\<open>svc-\<close>, no sequence of
  operations removes the node with that id.
\<close>

theorem no_deregister_counterexample:
  "\<not> (\<exists>ops s'. run billing_down ops = Inr s' \<and> ''svc-'' \<notin> set (service_ids s'))"
proof
  assume "\<exists>ops s'. run billing_down ops = Inr s' \<and> ''svc-'' \<notin> set (service_ids s')"
  then obtain ops s' where r: "run billing_down ops = Inr s'"
    and n: "''svc-'' \<notin> set (service_ids s')" by blast
  from run_ids_kept [OF r] obtain new where "service_ids s' = new @ service_ids billing_down" ..
  then have "''svc-'' \<in> set (service_ids s')"
    by (simp add: service_ids_def billing_down_def)
  with n show False by contradiction
qed

subsection \<open>Health-check worker\<close>

lemma probes_locked_append:
  "probes_locked True (map (\<lambda>n. Probe (host n) (port n)) svcs @ es) = probes_locked True es"
  by (induction svcs) simp_all

lemma probes_lock_free_append:
  "probes_lock_free True (map (\<lambda>n. Probe (host n) (port n)) svcs @ es) =
     (svcs = [] \<and> probes_lock_free True es)"
  by (induction svcs) auto

text \<open>
  C9 (as the code has it). One iteration of the health checker takes the registry lock
  once, probes every registered node while it holds the lock, releases the lock once
  and sleeps 5 seconds: every probe happens under the lock, and the iteration is free
  of probes under the lock only when the registry is empty.
\<close>

theorem health_check_probes_under_lock:
  "fst (health_check_iteration net orch) =
     [Registry_lock] @ map (\<lambda>n. Probe (host n) (port n)) (services (registry orch)) @
     [Registry_unlock, Sleep 5] \<and>
   probes_locked False (fst (health_check_iteration net orch)) \<and>
   (probes_lock_free False (fst (health_check_iteration net orch))
      = (services (registry orch) = []))"
proof -
  have t: "fst (health_check_iteration net orch) =
     [Registry_lock] @ map (\<lambda>n. Probe (host n) (port n)) (services (registry orch)) @
     [Registry_unlock, Sleep 5]"
    using health_check_nodes_events [of net 0 "services (registry orch)"]
    by (simp add: health_check_iteration_def case_prod_beta)
  show ?thesis
    unfolding t by (simp add: probes_locked_append probes_lock_free_append)
qed

text \<open>
  C9 as stated fails: with one node registered, the probe of 10.0.0.1:8080 happens
  between the lock and the unlock.
\<close>

theorem health_check_lock_counterexample:
  "fst (health_check_iteration all_down (orchestrator billing_down)) =
     [Registry_lock, Probe ''10.0.0.1'' 8080, Registry_unlock, Sleep 5] \<and>
   \<not> probes_lock_free False (fst (health_check_iteration all_down (orchestrator billing_down)))"
  by (simp add: health_check_iteration_def billing_down_def all_down_def)

subsection \<open>Message queue and dispatcher\<close>

lemma msg_path_cell_cong:
  "(\<And>a. a \<in> set as \<Longrightarrow> next (cell h' a) = next (cell h a)) \<Longrightarrow>
   msg_path h' p as = msg_path h p as"
  by (induction as arbitrary: p) auto

lemma msg_path_snoc:
  assumes "msg_path h x as" "distinct as" "p \<notin> set as" "as \<noteq> []"
    and "next (cell h' p) = None"
    and "next (cell h' (last as)) = Some p"
    and "\<And>a. a \<in> set as \<Longrightarrow> a \<noteq> last as \<Longrightarrow> next (cell h' a) = next (cell h a)"
  shows "msg_path h' x (as @ [p])"
  using assms
proof (induction as arbitrary: x)
  case Nil
  then show ?case by simp
next
  case (Cons a as)
  show ?case
  proof (cases "as = []")
    case True
    with Cons.prems show ?thesis by simp
  next
    case False
    then have l: "last (a # as) = last as" by simp
    have al: "a \<noteq> last as"
      using Cons.prems(2) False by auto
    have n: "next (cell h' a) = next (cell h a)"
      using Cons.prems(7) [of a] al l by simp
    have "msg_path h' (next (cell h a)) (as @ [p])"
    proof (rule Cons.IH)
      show "msg_path h (next (cell h a)) as" using Cons.prems(1) by simp
      show "distinct as" using Cons.prems(2) by simp
      show "p \<notin> set as" using Cons.prems(3) by simp
      show "as \<noteq> []" by fact
      show "next (cell h' p) = None" by fact
      show "next (cell h' (last as)) = Some p" using Cons.prems(6) l by simp
      show "next (cell h' b) = next (cell h b)" if "b \<in> set as" "b \<noteq> last as" for b
        using Cons.prems(7) [of b] that l by simp
    qed
    then show ?thesis using Cons.prems(1) n by simp
  qed
qed

lemma send_returns_0: "fst (eghact_send_message orch h p frm to pl) = 0"
  by (simp add: eghact_send_message_def Let_def split: option.splits)


lemma send_enqueues:
  assumes inv: "queue_inv h (message_queue orch) as" and fresh: "p \<notin> allocated h"
    and send: "eghact_send_message orch h p frm to pl = (rc, orch', h')"
  shows "queue_inv h' (message_queue orch') (as @ [p]) \<and>
         queue_contents h' (as @ [p]) = queue_contents h as @ [(frm, to, pl, 5)] \<and>
         allocated h' = insert p (allocated h)"
proof -
  let ?msg = "\<lparr>from_service = frm, to_service = to, payload = pl, priority = 5, next = None\<rparr>"
  from inv have path: "msg_path h (head (message_queue orch)) as" and d: "distinct as"
    and al: "set as \<subseteq> allocated h"
    and tl: "tail (message_queue orch) = (if as = [] then None else Some (last as))"
    by (simp_all add: queue_inv_def)
  from al fresh have p: "p \<notin> set as" by auto
  show ?thesis
  proof (cases "as = []")
    case True
    with tl send have o: "orch' = orch\<lparr>message_queue := \<lparr>head = Some p, tail = Some p\<rparr>\<rparr>"
      and h': "h' = \<lparr>cell = (cell h)(p := ?msg), allocated = insert p (allocated h)\<rparr>"
      by (auto simp: eghact_send_message_def Let_def)
    show ?thesis
      using True by (simp add: o h' queue_inv_def queue_contents_def content_def)
  next
    case False
    let ?t = "last as"
    have tp: "?t \<noteq> p" using False p last_in_set by metis
    from False tl send
    have o: "orch' = orch\<lparr>message_queue := (message_queue orch)\<lparr>tail := Some p\<rparr>\<rparr>"
      and h': "h' = \<lparr>cell = (cell h)(p := ?msg, ?t := (cell h ?t)\<lparr>next := Some p\<rparr>),
                     allocated = insert p (allocated h)\<rparr>"
      using tp by (auto simp: eghact_send_message_def Let_def)
    have "msg_path h' (head (message_queue orch)) (as @ [p])"
      using path d p False
    proof (rule msg_path_snoc)
      show "next (cell h' p) = None" using tp by (simp add: h')
      show "next (cell h' (last as)) = Some p" by (simp add: h')
      show "next (cell h' a) = next (cell h a)" if "a \<in> set as" "a \<noteq> last as" for a
        using that p by (auto simp: h')
    qed
    moreover have "content (cell h' a) = content (cell h a)" if "a \<in> set as" for a
      using that p by (auto simp: h' content_def)
    then have "queue_contents h' as = queue_contents h as"
      by (simp add: queue_contents_def)
    moreover have "content (cell h' p) = (frm, to, pl, 5)"
      using tp by (simp add: h' content_def)
    ultimately show ?thesis
      using d p al False by (auto simp: queue_inv_def o h' queue_contents_def)
  qed
qed

lemma dequeue_pops:
  assumes inv: "queue_inv h q (a # as)"
  shows "\<exists>q'. dequeue_head q h = Some (a, q') \<and> queue_inv (free_message h a) q' as \<and>
           queue_contents (free_message h a) as = queue_contents h as \<and>
           a \<notin> allocated (free_message h a)"
proof -
  from inv have hd: "head q = Some a" and path: "msg_path h (next (cell h a)) as"
    and d: "distinct as" "a \<notin> set as" and al: "set as \<subseteq> allocated h"
    and tl: "tail q = Some (last (a # as))"
    by (simp_all add: queue_inv_def)
  have "msg_path (free_message h a) (next (cell h a)) as = msg_path h (next (cell h a)) as"
    by (rule msg_path_cell_cong) (simp add: free_message_def)
  with path have p': "msg_path (free_message h a) (next (cell h a)) as"
    by simp
  have al': "set as \<subseteq> allocated (free_message h a)"
    using al d(2) by (auto simp: free_message_def)
  have c: "queue_contents (free_message h a) as = queue_contents h as"
    by (simp add: queue_contents_def free_message_def)
  have f: "a \<notin> allocated (free_message h a)"
    by (simp add: free_message_def)
  show ?thesis
  proof (cases as)
    case Nil
    with path have n: "next (cell h a) = None" by simp
    have "dequeue_head q h = Some (a, q\<lparr>head := None, tail := None\<rparr>)"
      using hd n by (simp add: dequeue_head_def)
    moreover have "queue_inv (free_message h a) (q\<lparr>head := None, tail := None\<rparr>) as"
      using Nil by (simp add: queue_inv_def)
    ultimately show ?thesis using c f by blast
  next
    case (Cons b bs)
    with path have n: "next (cell h a) = Some b" by simp
    have "dequeue_head q h = Some (a, q\<lparr>head := Some b\<rparr>)"
      using hd n by (simp add: dequeue_head_def)
    moreover have "queue_inv (free_message h a) (q\<lparr>head := Some b\<rparr>) as"
      using p' d(1) al' tl Cons n by (simp add: queue_inv_def)
    ultimately show ?thesis using c f by blast
  qed
qed



lemma dispatcher_iteration_pops:
  assumes "queue_inv h (message_queue orch) (a # as)"
  shows "\<exists>q'. queue_inv (free_message h a) q' as \<and>
     message_dispatcher_iteration orch h =
       (case eghact_discover_service (orch\<lparr>message_queue := q'\<rparr>) (to_service (cell h a)) of
          Inl e \<Rightarrow> Inl e
        | Inr (target, orch') \<Rightarrow>
            Inr (Some (case target of Some t \<Rightarrow> Delivered t (cell h a)
                                    | None \<Rightarrow> Discarded (cell h a),
                       orch', free_message h a)))"
proof -
  from dequeue_pops [OF assms] obtain q' where
    "dequeue_head (message_queue orch) h = Some (a, q')" "queue_inv (free_message h a) q' as"
    by blast
  then show ?thesis
    by (auto simp: message_dispatcher_iteration_def Let_def)
qed


lemma queue_contents_free: "queue_contents (free_message h a) as = queue_contents h as"
  by (simp add: queue_contents_def free_message_def)


lemma fifo_send_all_append:
  "fifo_send_all xs sends = xs @ map (\<lambda>(p, frm, to, pl). (frm, to, pl, 5)) sends"
  by (induction xs sends rule: fifo_send_all.induct) (simp_all add: fifo_enqueue_def)


text \<open>
  C10. \<^verbatim>\<open>eghact_send_message\<close> returns 0 for every input, and on a well-formed queue it
  appends the message whatever the destination. When the dispatcher pops a message whose
  destination has no healthy node (registered or not), the iteration ends without fault
  and without a call of \<^verbatim>\<open>deliver_message\<close>: the message is discarded and its cell freed,
  registry and balancer are as before, the queue holds the remaining messages, and the
  dispatcher goes on with them.
\<close>

theorem undeliverable_message_is_discarded:
  "fst (eghact_send_message orch h p frm to pl) = 0 \<and>
   (queue_inv h (message_queue orch) as \<and> p \<notin> allocated h \<longrightarrow>
      queue_inv (snd (snd (eghact_send_message orch h p frm to pl)))
        (message_queue (fst (snd (eghact_send_message orch h p frm to pl)))) (as @ [p]) \<and>
      queue_contents (snd (snd (eghact_send_message orch h p frm to pl))) (as @ [p]) =
        queue_contents h as @ [(frm, to, pl, 5)]) \<and>
   (queue_inv h' (message_queue orch') (a # bs) \<and>
    (\<forall>n \<in> set (services (registry orch')).
        service_name n = to_service (cell h' a) \<longrightarrow> health_status n \<noteq> 1) \<longrightarrow>
      (\<exists>q'. message_dispatcher_iteration orch' h' =
               Inr (Some (Discarded (cell h' a), orch'\<lparr>message_queue := q'\<rparr>, free_message h' a)) \<and>
            a \<notin> allocated (free_message h' a) \<and>
            queue_inv (free_message h' a) q' bs \<and>
            queue_contents (free_message h' a) bs = queue_contents h' bs \<and>
            dispatch_n (Suc k) orch' h' =
              (Discarded (cell h' a) #
                 fst (dispatch_n k (orch'\<lparr>message_queue := q'\<rparr>) (free_message h' a)),
               snd (dispatch_n k (orch'\<lparr>message_queue := q'\<rparr>) (free_message h' a)))))"
proof -
  have 1: "fst (eghact_send_message orch h p frm to pl) = 0"
    by (rule send_returns_0)
  have 2: "queue_inv (snd (snd (eghact_send_message orch h p frm to pl)))
        (message_queue (fst (snd (eghact_send_message orch h p frm to pl)))) (as @ [p]) \<and>
      queue_contents (snd (snd (eghact_send_message orch h p frm to pl))) (as @ [p]) =
        queue_contents h as @ [(frm, to, pl, 5)]"
    if "queue_inv h (message_queue orch) as" "p \<notin> allocated h"
    using send_enqueues [OF that, of frm to pl] by (simp add: prod_eq_iff)
  have 3: "\<exists>q'. message_dispatcher_iteration orch' h' =
               Inr (Some (Discarded (cell h' a), orch'\<lparr>message_queue := q'\<rparr>, free_message h' a)) \<and>
            a \<notin> allocated (free_message h' a) \<and>
            queue_inv (free_message h' a) q' bs \<and>
            queue_contents (free_message h' a) bs = queue_contents h' bs \<and>
            dispatch_n (Suc k) orch' h' =
              (Discarded (cell h' a) #
                 fst (dispatch_n k (orch'\<lparr>message_queue := q'\<rparr>) (free_message h' a)),
               snd (dispatch_n k (orch'\<lparr>message_queue := q'\<rparr>) (free_message h' a)))"
    if inv: "queue_inv h' (message_queue orch') (a # bs)"
      and none: "\<forall>n \<in> set (services (registry orch')).
        service_name n = to_service (cell h' a) \<longrightarrow> health_status n \<noteq> 1"
  proof -
    from dispatcher_iteration_pops [OF inv] obtain q' where
      q': "queue_inv (free_message h' a) q' bs"
      and it: "message_dispatcher_iteration orch' h' =
       (case eghact_discover_service (orch'\<lparr>message_queue := q'\<rparr>) (to_service (cell h' a)) of
          Inl e \<Rightarrow> Inl e
        | Inr (target, orch'') \<Rightarrow>
            Inr (Some (case target of Some t \<Rightarrow> Delivered t (cell h' a)
                                    | None \<Rightarrow> Discarded (cell h' a),
                       orch'', free_message h' a)))"
      by blast
    have "eghact_discover_service (orch'\<lparr>message_queue := q'\<rparr>) (to_service (cell h' a)) =
          Inr (None, orch'\<lparr>message_queue := q'\<rparr>)"
      using none by (intro discover_none) simp
    with it have it': "message_dispatcher_iteration orch' h' =
        Inr (Some (Discarded (cell h' a), orch'\<lparr>message_queue := q'\<rparr>, free_message h' a))"
      by simp
    have "a \<notin> allocated (free_message h' a)"
      by (simp add: free_message_def)
    moreover have "dispatch_n (Suc k) orch' h' =
              (Discarded (cell h' a) #
                 fst (dispatch_n k (orch'\<lparr>message_queue := q'\<rparr>) (free_message h' a)),
               snd (dispatch_n k (orch'\<lparr>message_queue := q'\<rparr>) (free_message h' a)))"
      by (simp add: it' case_prod_beta)
    ultimately show ?thesis
      using it' q' queue_contents_free by blast
  qed
  from 1 2 3 show ?thesis by blast
qed

lemma stray_cell:
  "cell (snd (snd stray_sent)) 10 =
     \<lparr>from_service = ''web'', to_service = ''nowhere'', payload = ''hello'', priority = 5,
      next = None\<rparr> \<and>
   services (registry (fst (snd stray_sent))) = services (registry (orchestrator billing_down))"
  by (simp add: stray_sent_def eghact_send_message_def billing_down_def)

theorem undeliverable_message_is_discarded_witness:
  "fst stray_sent = 0 \<and>
   map service_name (services (registry (fst (snd stray_sent)))) = [''billing''] \<and>
   queue_contents (snd (snd stray_sent)) [10] = [(''web'', ''nowhere'', ''hello'', 5)] \<and>
   map_sum id (map_option fst)
     (message_dispatcher_iteration (fst (snd stray_sent)) (snd (snd stray_sent))) =
     Inr (Some (Discarded \<lparr>from_service = ''web'', to_service = ''nowhere'',
                           payload = ''hello'', priority = 5, next = None\<rparr>))"
proof -
  let ?o1 = "fst (snd stray_sent)" and ?h1 = "snd (snd stray_sent)"
  have inv0: "queue_inv (messages billing_down) (message_queue (orchestrator billing_down)) []"
    by (simp add: queue_inv_def billing_down_def)
  have fresh: "10 \<notin> allocated (messages billing_down)"
    by (simp add: billing_down_def)
  have none: "\<forall>n \<in> set (services (registry ?o1)).
      service_name n = to_service (cell ?h1 10) \<longrightarrow> health_status n \<noteq> 1"
    by (simp add: stray_cell) (simp add: billing_down_def)
  note inst = undeliverable_message_is_discarded
    [where orch = "orchestrator billing_down" and h = "messages billing_down" and p = 10
       and frm = "''web''" and to = "''nowhere''" and pl = "''hello''" and as = "[]"
       and orch' = "?o1" and h' = "?h1" and a = 10 and bs = "[]" and k = 0]
  from inst have rc: "fst stray_sent = 0"
    by (simp add: stray_sent_def)
  from inst inv0 fresh
  have inv1: "queue_inv ?h1 (message_queue ?o1) [10]"
    and c: "queue_contents ?h1 [10] = [(''web'', ''nowhere'', ''hello'', 5)]"
    by (simp_all add: stray_sent_def queue_contents_def)
  from inst inv1 none obtain q' where
    "message_dispatcher_iteration ?o1 ?h1 =
       Inr (Some (Discarded (cell ?h1 10), ?o1\<lparr>message_queue := q'\<rparr>, free_message ?h1 10))"
    by blast
  then have d: "map_sum id (map_option fst) (message_dispatcher_iteration ?o1 ?h1) =
     Inr (Some (Discarded \<lparr>from_service = ''web'', to_service = ''nowhere'',
                           payload = ''hello'', priority = 5, next = None\<rparr>))"
    by (simp add: stray_cell)
  have reg: "map service_name (services (registry ?o1)) = [''billing'']"
    by (simp add: stray_cell) (simp add: billing_down_def)
  from rc reg c d show ?thesis by blast
qed

subsection \<open>Round robin\<close>

lemma collect_instances_cong:
  "map (\<lambda>n. (service_name n, health_status n)) svcs' = map (\<lambda>n. (service_name n, health_status n)) svcs
   \<Longrightarrow> collect_instances k svcs' name = collect_instances k svcs name"
proof (induction svcs arbitrary: svcs' k)
  case Nil
  then show ?case by simp
next
  case (Cons n ns)
  from Cons.prems obtain n' ns' where s: "svcs' = n' # ns'" by (cases svcs') auto
  from Cons.prems s have h: "service_name n' = service_name n" "health_status n' = health_status n"
    and t: "map (\<lambda>n. (service_name n, health_status n)) ns' =
            map (\<lambda>n. (service_name n, health_status n)) ns"
    by simp_all
  from Cons.IH [OF t] show ?case by (simp add: s h)
qed

lemma collect_instances_increment_load:
  "collect_instances k (services (increment_load reg i)) name = collect_instances k (services reg) name"
proof (rule collect_instances_cong)
  show "map (\<lambda>n. (service_name n, health_status n)) (services (increment_load reg i)) =
        map (\<lambda>n. (service_name n, health_status n)) (services reg)"
  proof (cases "i < length (services reg)")
    case True
    then show ?thesis
      by (simp add: increment_load_def map_update list_update_same_conv)
  next
    case False
    then show ?thesis by (simp add: increment_load_def list_update_beyond)
  qed
qed

lemma sint_succ:
  fixes x :: c_int
  assumes "0 \<le> sint x" "sint x + 1 < 2 ^ 31"
  shows "sint (x + 1) = sint x + 1"
proof -
  have "sint (x + 1) = signed_take_bit 31 (sint x + sint (1 :: c_int))"
    by (simp add: sint_word_ariths)
  also have "\<dots> = signed_take_bit 31 (sint x + 1)" by simp
  also have "\<dots> = sint x + 1"
    using assms by (intro signed_take_bit_int_eq_self) simp_all
  finally show ?thesis .
qed

lemma smod_nonneg:
  fixes x :: int
  assumes "0 \<le> x"
  shows "x smod int k = x mod int k"
  using assms by (cases "x = 0") (simp_all add: smod_int_alt_def sgn_if)

lemma select_round_robin:
  assumes "strategy lb = LB_ROUND_ROBIN" "collect_instances 0 (services reg) name = xs" "xs \<noteq> []"
    and "0 \<le> sint (current_index lb)"
  shows "select_service_instance lb reg name =
     Inr (Some (xs ! (nat (sint (current_index lb)) mod length xs)),
          lb\<lparr>current_index := current_index lb + 1\<rparr>,
          increment_load reg (xs ! (nat (sint (current_index lb)) mod length xs)))"
proof -
  let ?c = "sint (current_index lb)"
  have m: "?c smod int (length xs) = ?c mod int (length xs)"
    using assms(4) by (rule smod_nonneg)
  have n: "nat (?c mod int (length xs)) = nat ?c mod length xs"
    using assms(4) by (simp add: nat_mod_distrib)
  have nn: "\<not> ?c mod int (length xs) < 0"
    using assms(3) by (simp add: linorder_not_less)
  show ?thesis
    using assms(1-3) by (simp add: select_service_instance_def Let_def m n nn)
qed

lemma select_n_round_robin:
  assumes "strategy lb = LB_ROUND_ROBIN" "collect_instances 0 (services reg) name = xs" "xs \<noteq> []"
    and "0 \<le> sint (current_index lb)" "sint (current_index lb) + int n \<le> 2 ^ 31"
  shows "\<exists>reg'. select_n n lb reg name =
     Inr (map (\<lambda>j. Some (xs ! ((nat (sint (current_index lb)) + j) mod length xs))) [0..<n],
          lb\<lparr>current_index := current_index lb + of_nat n\<rparr>, reg') \<and>
     collect_instances 0 (services reg') name = xs"
  using assms
proof (induction n arbitrary: lb reg)
  case 0
  then show ?case by simp
next
  case (Suc n)
  let ?c = "sint (current_index lb)"
  let ?i = "xs ! (nat ?c mod length xs)"
  let ?lb1 = "lb\<lparr>current_index := current_index lb + 1\<rparr>"
  let ?reg1 = "increment_load reg ?i"
  have sel: "select_service_instance lb reg name = Inr (Some ?i, ?lb1, ?reg1)"
    using Suc.prems(1-4) by (rule select_round_robin)
  have col: "collect_instances 0 (services ?reg1) name = xs"
    using Suc.prems(2) by (simp add: collect_instances_increment_load)
  show ?case
  proof (cases n)
    case 0
    then show ?thesis using sel col by simp
  next
    case (Suc m)
    with Suc.prems(5) have "?c + 1 < 2 ^ 31" by simp
    with Suc.prems(4) have c1: "sint (current_index ?lb1) = ?c + 1"
      by (simp add: sint_succ)
    have "\<exists>reg'. select_n n ?lb1 ?reg1 name =
       Inr (map (\<lambda>j. Some (xs ! ((nat (sint (current_index ?lb1)) + j) mod length xs))) [0..<n],
            ?lb1\<lparr>current_index := current_index ?lb1 + of_nat n\<rparr>, reg') \<and>
       collect_instances 0 (services reg') name = xs"
    proof (rule Suc.IH)
      show "strategy ?lb1 = LB_ROUND_ROBIN" using Suc.prems(1) by simp
      show "collect_instances 0 (services ?reg1) name = xs" by (rule col)
      show "xs \<noteq> []" by fact
      show "0 \<le> sint (current_index ?lb1)" using c1 Suc.prems(4) by simp
      show "sint (current_index ?lb1) + int n \<le> 2 ^ 31" using c1 Suc.prems(5) by simp
    qed
    then obtain reg' where
      "select_n n ?lb1 ?reg1 name =
       Inr (map (\<lambda>j. Some (xs ! ((nat (?c + 1) + j) mod length xs))) [0..<n],
            ?lb1\<lparr>current_index := current_index ?lb1 + of_nat n\<rparr>, reg')"
      and col': "collect_instances 0 (services reg') name = xs"
      unfolding c1 by blast
    moreover have "nat (?c + 1) + j = nat ?c + Suc j" for j
      using Suc.prems(4) by simp
    moreover have "?lb1\<lparr>current_index := current_index ?lb1 + of_nat n\<rparr> =
        lb\<lparr>current_index := current_index lb + of_nat (Suc n)\<rparr>"
      by (simp add: add.assoc add.commute)
    ultimately have "select_n (Suc n) lb reg name =
       Inr (map (\<lambda>j. Some (xs ! ((nat ?c + j) mod length xs))) [0..<Suc n],
            lb\<lparr>current_index := current_index lb + of_nat (Suc n)\<rparr>, reg')"
      using sel by (simp add: map_upt_Suc del: upt_Suc of_nat_Suc)
    with col' show ?thesis by blast
  qed
qed

text \<open>
  While the counter stays within \<open>0 .. INT_MAX\<close>: over a pool of \<open>k\<close> healthy nodes that
  does not change, \<open>k\<close> selections in a row return the nodes of the pool rotated by the
  counter, each exactly once.
\<close>

lemma round_robin_visits_each_once:
  assumes "strategy lb = LB_ROUND_ROBIN" "collect_instances 0 (services reg) name = xs" "xs \<noteq> []"
    and "0 \<le> sint (current_index lb)" "sint (current_index lb) + int (length xs) \<le> 2 ^ 31"
  shows "\<exists>rs lb' reg'. select_n (length xs) lb reg name = Inr (rs, lb', reg') \<and>
     rs = map Some (rotate (nat (sint (current_index lb))) xs) \<and>
     distinct rs \<and> set rs = Some ` {i. healthy_instance (services reg) name i}"
proof -
  let ?c = "nat (sint (current_index lb))"
  from select_n_round_robin [OF assms] obtain lb' reg' where
    s: "select_n (length xs) lb reg name =
     Inr (map (\<lambda>j. Some (xs ! ((?c + j) mod length xs))) [0..<length xs], lb', reg')"
    by blast
  have "map (\<lambda>j. xs ! ((?c + j) mod length xs)) [0..<length xs] = rotate ?c xs"
    by (rule nth_equalityI) (simp_all add: nth_rotate add.commute)
  then have "map Some (map (\<lambda>j. xs ! ((?c + j) mod length xs)) [0..<length xs]) =
      map Some (rotate ?c xs)"
    by (rule arg_cong)
  then have r: "map (\<lambda>j. Some (xs ! ((?c + j) mod length xs))) [0..<length xs] =
      map Some (rotate ?c xs)"
    by (simp add: comp_def)
  have d: "distinct xs"
    using collect_instances_sorted [of 0 "services reg" name] assms(2)
    by (simp add: strict_sorted_iff)
  have st: "set xs = {i. healthy_instance (services reg) name i}"
    using collect_instances_0 [of _ "services reg" name] assms(2) by auto
  show ?thesis
    using s d st unfolding r by (auto simp: distinct_map)
qed

lemma select_after_wrap:
  assumes "strategy lb = LB_ROUND_ROBIN" "length (collect_instances 0 (services reg) name) = 3"
    and "current_index lb = 2147483648"
  shows "select_service_instance lb reg name = Inl OutOfBoundsRead"
proof -
  have "collect_instances 0 (services reg) name \<noteq> []"
    using assms(2) by auto
  then show ?thesis
    using assms by (simp add: select_service_instance_def Let_def smod_int_alt_def)
qed

lemma select_n_at_max:
  assumes "strategy lb = LB_ROUND_ROBIN" "collect_instances 0 (services reg) name = xs"
    and "length xs = 3" and "current_index lb = 2147483647"
  shows "select_service_instance lb reg name =
           Inr (Some (xs ! 1), lb\<lparr>current_index := 2147483648\<rparr>, increment_load reg (xs ! 1)) \<and>
         select_n 3 lb reg name = Inl OutOfBoundsRead"
proof -
  have ne: "xs \<noteq> []" using assms(3) by auto
  have c: "0 \<le> sint (current_index lb)" by (simp add: assms(4))
  have sel: "select_service_instance lb reg name =
      Inr (Some (xs ! 1), lb\<lparr>current_index := 2147483648\<rparr>, increment_load reg (xs ! 1))"
    using select_round_robin [OF assms(1,2) ne c] by (simp add: assms(3,4))
  have "select_service_instance (lb\<lparr>current_index := 2147483648\<rparr>)
          (increment_load reg (xs ! 1)) name = Inl OutOfBoundsRead"
    by (rule select_after_wrap)
       (simp_all add: assms(1-3) collect_instances_increment_load)
  with sel show ?thesis by (simp add: numeral_3_eq_3)
qed

lemma three_healthy_instances: "collect_instances 0 (services three_healthy) ''payments'' = [0, 1, 2]"
  by (simp add: three_healthy_def)

text \<open>
  C4 fails at the overflow of the counter. \<^verbatim>\<open>current_index\<close> is an \<^verbatim>\<open>int\<close> that every
  selection increments and nothing resets. After \<open>2^31 - 1\<close> selections from the initial
  balancer it stands at \<^verbatim>\<open>INT_MAX\<close>; with three healthy nodes the next selection returns
  position 1 and wraps the counter to \<^verbatim>\<open>INT_MIN\<close>, and the one after computes the index
  \<^verbatim>\<open>INT_MIN % 3 = -2\<close> and reads before the array: three selections in a row do not
  visit each node once.
\<close>

theorem round_robin_counter_overflow:
  "(\<exists>rs reg'. select_n 2147483647 (load_balancer eghact_orchestrator_init) three_healthy ''payments''
                 = Inr (rs, counter_at_max, reg') \<and>
               select_n 3 counter_at_max reg' ''payments'' = Inl OutOfBoundsRead) \<and>
   select_service_instance counter_at_max three_healthy ''payments'' =
     Inr (Some 1, \<lparr>strategy = LB_ROUND_ROBIN, current_index = 2147483648\<rparr>,
          increment_load three_healthy 1) \<and>
   sint (2147483648 :: c_int) smod 3 = - 2 \<and>
   select_n 3 counter_at_max three_healthy ''payments'' = Inl OutOfBoundsRead"
proof -
  let ?lb0 = "load_balancer eghact_orchestrator_init"
  have "\<exists>reg'. select_n 2147483647 ?lb0 three_healthy ''payments'' =
     Inr (map (\<lambda>j. Some ([0, 1, 2] ! ((nat (sint (current_index ?lb0)) + j) mod length [0, 1, 2::nat])))
            [0..<2147483647],
          ?lb0\<lparr>current_index := current_index ?lb0 + of_nat 2147483647\<rparr>, reg') \<and>
     collect_instances 0 (services reg') ''payments'' = [0, 1, 2]"
    by (rule select_n_round_robin)
       (simp_all add: eghact_orchestrator_init_def three_healthy_instances)
  then obtain rs reg' where
    run: "select_n 2147483647 ?lb0 three_healthy ''payments'' =
            Inr (rs, ?lb0\<lparr>current_index := current_index ?lb0 + of_nat 2147483647\<rparr>, reg')"
    and col: "collect_instances 0 (services reg') ''payments'' = [0, 1, 2]"
    by blast
  have lb: "?lb0\<lparr>current_index := current_index ?lb0 + of_nat 2147483647\<rparr> = counter_at_max"
    by (simp add: eghact_orchestrator_init_def counter_at_max_def)
  have "select_n 3 counter_at_max reg' ''payments'' = Inl OutOfBoundsRead"
    using select_n_at_max [of counter_at_max reg' "''payments''" "[0, 1, 2]"] col
    by (simp add: counter_at_max_def)
  with run lb have 1: "\<exists>rs reg'. select_n 2147483647 ?lb0 three_healthy ''payments''
                 = Inr (rs, counter_at_max, reg') \<and>
               select_n 3 counter_at_max reg' ''payments'' = Inl OutOfBoundsRead"
    by auto
  have 2: "select_service_instance counter_at_max three_healthy ''payments'' =
     Inr (Some 1, \<lparr>strategy = LB_ROUND_ROBIN, current_index = 2147483648\<rparr>,
          increment_load three_healthy 1) \<and>
     select_n 3 counter_at_max three_healthy ''payments'' = Inl OutOfBoundsRead"
    using select_n_at_max [of counter_at_max three_healthy "''payments''" "[0, 1, 2]"]
    by (simp add: counter_at_max_def three_healthy_instances)
  have 3: "sint (2147483648 :: c_int) smod 3 = - 2"
    by (simp add: smod_int_alt_def)
  from 1 2 3 show ?thesis by blast
qed

subsection \<open>The dispatcher as the dispatcher of the list\<close>
















end
